theory Spec2Isabelle
  imports Main "HOL-Library.Word"
begin

unbundle bit_operations_syntax

section \<open>The receive-capture pipeline of radar\_rx.c\<close>

text \<open>
  A shallow embedding of \<^verbatim>\<open>src/radar_rx.c\<close>: the accumulator chunk reader
  \<^verbatim>\<open>copyCIRToBuffer\<close>, the record serializer \<^verbatim>\<open>saveCIRToFile\<close>, the
  timestamp helpers and the reception loop of \<^verbatim>\<open>main\<close>.
\<close>

subsection \<open>Machine types and constants\<close>

type_synonym uint8 = "8 word"
type_synonym uint16 = "16 word"
type_synonym uint32 = "32 word"
type_synonym uint64 = "64 word"
type_synonym int16 = "16 word"
type_synonym int32 = "32 word"

text \<open>\<^verbatim>\<open>#define CIR_SAMPLES 1016\<close>, \<^verbatim>\<open>#define RX_BUF_LEN 24\<close>,
  \<^verbatim>\<open>#define ACC_CHUNK 64\<close>, \<^verbatim>\<open>#define RADAR_FRAME_DATA_IDX 6\<close>.\<close>

definition CIR_SAMPLES :: nat where
  "CIR_SAMPLES = 1016"

definition RX_BUF_LEN :: nat where
  "RX_BUF_LEN = 24"

definition ACC_CHUNK :: nat where
  "ACC_CHUNK = 64"

definition RADAR_FRAME_DATA_IDX :: nat where
  "RADAR_FRAME_DATA_IDX = 6"

subsection \<open>Timestamp extraction\<close>

text \<open>
  \<^verbatim>\<open>for (i = 4; i >= 0; i--) { ts <<= 8; ts |= ts_tab[i]; }\<close>
  The counter of \<open>ts_loop\<close> is \<open>i + 1\<close>: the step at \<open>Suc i\<close> handles \<open>ts_tab[i]\<close>,
  and the loop ends when \<open>i\<close> drops below \<open>0\<close>. The call starts it at \<open>5\<close> with
  \<open>ts = 0\<close>. \<open>ts_tab\<close> is the local array of five bytes after the driver has filled it.
\<close>

fun ts_loop :: "uint8 list \<Rightarrow> nat \<Rightarrow> uint64 \<Rightarrow> uint64" where
  "ts_loop ts_tab 0 ts = ts"
| "ts_loop ts_tab (Suc i) ts = ts_loop ts_tab i (push_bit 8 ts OR ucast (ts_tab ! i))"

subsection \<open>The driver interface and the platform\<close>

text \<open>
  The Decawave driver (\<^verbatim>\<open>deca_device_api.h\<close>, \<^verbatim>\<open>deca_regs.h\<close>) and the C library
  are not part of the sources, so they are parameters of the model: a record of the
  register constants and of the calls \<^verbatim>\<open>radar_rx.c\<close> makes, over a state \<open>'w\<close> of the
  device and the operating system. A call that fills a caller's array returns the bytes
  it stores at the start of that array. \<open>dwt_readaccdata\<close> returns \<open>None\<close> when the
  transfer fails and stores nothing; the C function returns \<^verbatim>\<open>void\<close>, so the caller cannot
  see which of the two happened.
\<close>

datatype byte_order = LittleEndian | BigEndian

record 'w platform =
  SYS_STATUS_RXFCG :: uint32
  SYS_STATUS_ALL_RX_ERR :: uint32
  RX_FINFO_RXFL_MASK_1023 :: uint32
  native_order :: byte_order
  dwt_rxenable :: "'w \<Rightarrow> 'w"
  dwt_read32bitreg_SYS_STATUS :: "'w \<Rightarrow> uint32 \<times> 'w"
  dwt_write32bitreg_SYS_STATUS :: "uint32 \<Rightarrow> 'w \<Rightarrow> 'w"
  dwt_read32bitreg_RX_FINFO :: "'w \<Rightarrow> uint32 \<times> 'w"
  dwt_readrxdata :: "uint16 \<Rightarrow> uint16 \<Rightarrow> 'w \<Rightarrow> uint8 list \<times> 'w"
  dwt_readtxtimestamp :: "'w \<Rightarrow> uint8 list \<times> 'w"
  dwt_readrxtimestamp :: "'w \<Rightarrow> uint8 list \<times> 'w"
  dwt_readsystime :: "'w \<Rightarrow> uint8 list \<times> 'w"
  dwt_readaccdata :: "uint16 \<Rightarrow> uint16 \<Rightarrow> 'w \<Rightarrow> uint8 list option \<times> 'w"
  dwt_readdiagnostics :: "'w \<Rightarrow> 'w"
  dwt_rxreset :: "'w \<Rightarrow> 'w"
  fopen_wb :: "string \<Rightarrow> 'w \<Rightarrow> bool \<times> 'w"
  sscanf_ld :: "string \<Rightarrow> int32 option"

text \<open>
  The calls made so far are logged next to the state of the platform, with the lines
  printed and the files written (name and content, in the order of writing).
\<close>

datatype call =
    Rxenable
  | Read_SYS_STATUS
  | Write_SYS_STATUS uint32
  | Read_RX_FINFO
  | Readrxdata uint16 uint16
  | Readtxtimestamp
  | Readrxtimestamp
  | Readsystime
  | Readaccdata uint16 uint16
  | Readdiagnostics
  | Rxreset
  | Fopen string

record 'w io =
  world :: 'w
  calls :: "call list"
  stdout :: "string list"
  files :: "(string \<times> uint8 list) list"

definition did :: "call \<Rightarrow> 'w \<Rightarrow> 'w io \<Rightarrow> 'w io" where
  "did c w s = s\<lparr>world := w, calls := calls s @ [c]\<rparr>"

definition printf :: "string \<Rightarrow> 'w io \<Rightarrow> 'w io" where
  "printf line s = s\<lparr>stdout := stdout s @ [line]\<rparr>"

text \<open>The three helpers differ only in the driver call that fills \<open>ts_tab\<close>.\<close>

definition get_tx_timestamp_u64 :: "'w platform \<Rightarrow> 'w io \<Rightarrow> uint64 \<times> 'w io" where
  "get_tx_timestamp_u64 p s =
     (let (ts_tab, w) = dwt_readtxtimestamp p (world s)
      in (ts_loop ts_tab 5 0, did Readtxtimestamp w s))"

definition get_rx_timestamp_u64 :: "'w platform \<Rightarrow> 'w io \<Rightarrow> uint64 \<times> 'w io" where
  "get_rx_timestamp_u64 p s =
     (let (ts_tab, w) = dwt_readrxtimestamp p (world s)
      in (ts_loop ts_tab 5 0, did Readrxtimestamp w s))"

definition get_system_timestamp_u64 :: "'w platform \<Rightarrow> 'w io \<Rightarrow> uint64 \<times> 'w io" where
  "get_system_timestamp_u64 p s =
     (let (ts_tab, w) = dwt_readsystime p (world s)
      in (ts_loop ts_tab 5 0, did Readsystime w s))"

subsection \<open>Arrays\<close>

text \<open>
  A driver call stores its bytes at the start of the array it is handed; the array keeps
  its size (a driver that writes past the end of the array is outside the model).
\<close>

definition stored :: "uint8 list \<Rightarrow> uint8 list \<Rightarrow> uint8 list" where
  "stored bytes array = take (length array) (bytes @ drop (length bytes) array)"

text \<open>
  \<^verbatim>\<open>memcpy(&dst[d], &src[s], n)\<close>. An access outside either array is undefined behaviour
  in C: the model returns \<open>None\<close>.
\<close>

definition memcpy :: "uint8 list \<Rightarrow> nat \<Rightarrow> uint8 list \<Rightarrow> nat \<Rightarrow> nat \<Rightarrow> uint8 list option" where
  "memcpy dst d src s n =
     (if d + n \<le> length dst \<and> s + n \<le> length src
      then Some (take d dst @ take n (drop s src) @ drop (d + n) dst)
      else None)"

subsection \<open>The accumulator chunk reader\<close>

text \<open>
  One pass of the \<^verbatim>\<open>while(1)\<close> loop of \<^verbatim>\<open>copyCIRToBuffer\<close>, with the loop variables
  \<open>len\<close>, \<open>loc\<close> and \<open>lastRead\<close> as arguments; \<open>toRead\<close> is assigned before it is
  read in every pass. \<open>loc\<close> is a C \<^verbatim>\<open>int\<close> passed for the driver's 16-bit offset.
\<close>

function copyCIR_loop ::
  "'w platform \<Rightarrow> uint8 list \<Rightarrow> uint16 \<Rightarrow> int \<Rightarrow> bool \<Rightarrow> 'w io \<Rightarrow> (uint8 list \<times> 'w io) option"
where
  "copyCIR_loop p buffer len loc lastRead s =
     (let buf0 = replicate (ACC_CHUNK + 1) (0 :: uint8);
          toRead = (if of_nat ACC_CHUNK < len then of_nat ACC_CHUNK else len);
          lastRead' = (if of_nat ACC_CHUNK < len then lastRead else True);
          (r, w) = dwt_readaccdata p toRead (word_of_int loc) (world s);
          s' = did (Readaccdata toRead (word_of_int loc)) w s;
          buf = (case r of None \<Rightarrow> buf0 | Some bytes \<Rightarrow> stored bytes buf0)
      in case memcpy buffer (nat loc) buf 1 (unat toRead) of
           None \<Rightarrow> None
         | Some buffer' \<Rightarrow>
             if lastRead' then Some (buffer', s')
             else copyCIR_loop p buffer' (len - toRead) (loc + uint toRead) lastRead' s')"
  by pat_completeness auto
termination
proof (relation "measure (\<lambda>(p, buffer, len, loc, lastRead, s). unat len)")
  show "wf (measure (\<lambda>(p, buffer, len, loc, lastRead, s). unat len))"
    by simp
next
  fix p :: "'w platform" and buffer :: "uint8 list" and len :: uint16 and loc :: int
    and lastRead :: bool and s :: "'w io" and buf0 toRead lastRead' x r w s' buf buffer'
  assume tr: "toRead = (if of_nat ACC_CHUNK < len then of_nat ACC_CHUNK else len)"
    and lr: "lastRead' = (if of_nat ACC_CHUNK < len then lastRead else True)"
    and nl: "\<not> lastRead'"
  from lr nl have big: "(64 :: uint16) < len"
    by (simp add: ACC_CHUNK_def split: if_splits)
  with tr have t64: "toRead = 64"
    by (simp add: ACC_CHUNK_def)
  from big have "unat (len - 64) < unat len"
    by (simp add: unat_sub word_less_nat_alt word_le_nat_alt)
  with t64 show "((p, buffer', len - toRead, loc + uint toRead, lastRead', s'),
      (p, buffer, len, loc, lastRead, s)) \<in> measure (\<lambda>(p, buffer, len, loc, lastRead, s). unat len)"
    by simp
qed

definition copyCIRToBuffer ::
  "'w platform \<Rightarrow> uint8 list \<Rightarrow> uint16 \<Rightarrow> 'w io \<Rightarrow> (uint8 list \<times> 'w io) option" where
  "copyCIRToBuffer p buffer len s = copyCIR_loop p buffer len 0 False s"

text \<open>
  For the statements about the reader: the scratch array and the state after the
  \<^verbatim>\<open>memset\<close> and the driver call of one pass, and the driver calls a run makes,
  in closed form (a call of \<open>64\<close> bytes while more than \<open>64\<close> remain, then one for
  the rest).
\<close>

definition read_chunk :: "'w platform \<Rightarrow> uint16 \<Rightarrow> int \<Rightarrow> 'w io \<Rightarrow> uint8 list \<times> 'w io" where
  "read_chunk p toRead loc s =
     (let (r, w) = dwt_readaccdata p toRead (word_of_int loc) (world s)
      in (case r of None \<Rightarrow> replicate (ACC_CHUNK + 1) 0
                  | Some bytes \<Rightarrow> stored bytes (replicate (ACC_CHUNK + 1) 0),
          did (Readaccdata toRead (word_of_int loc)) w s))"

definition acc_reads :: "int \<Rightarrow> uint16 \<Rightarrow> call list" where
  "acc_reads loc len =
     map (\<lambda>i. Readaccdata (if 64 * (i + 1) < unat len then 64 else len - of_nat (64 * i))
                           (word_of_int (loc + 64 * int i)))
         [0..<max 1 ((unat len + 63) div 64)]"


text \<open>
  Modelled from the spec: the accumulator read of the driver, which is not part of the
  sources. Section 4.2: a chunk read returns one extra leading byte, a hardware artifact,
  and only bytes \<open>[1, size]\<close> of the raw chunk are meaningful; the read is issued with the
  meaningful size. \<open>acc\<close> is the accumulator memory of the device, by byte offset.
\<close>

definition spec_readaccdata :: "(nat \<Rightarrow> uint8) \<Rightarrow> uint8 \<Rightarrow> uint16 \<Rightarrow> uint16 \<Rightarrow> uint8 list" where
  "spec_readaccdata acc artifact len off = artifact # map acc [unat off..<unat off + unat len]"

definition reads_accumulator :: "'w platform \<Rightarrow> (nat \<Rightarrow> uint8) \<Rightarrow> bool" where
  "reads_accumulator p acc \<longleftrightarrow>
     (\<forall>len off w. \<exists>artifact.
        fst (dwt_readaccdata p len off w) = Some (spec_readaccdata acc artifact len off))"

subsection \<open>Native byte order\<close>

text \<open>
  \<^verbatim>\<open>fwrite\<close> and \<^verbatim>\<open>memcpy\<close> move the bytes of an integer as they lie in memory: least
  significant byte first on a little-endian platform, last on a big-endian one.
\<close>

definition le_bytes :: "nat \<Rightarrow> 'a::len word \<Rightarrow> uint8 list" where
  "le_bytes n w = map (\<lambda>i. ucast (drop_bit (8 * i) w)) [0..<n]"

fun le_word :: "uint8 list \<Rightarrow> 'a::len word" where
  "le_word [] = 0"
| "le_word (b # bs) = ucast b OR push_bit 8 (le_word bs)"

definition native_bytes :: "byte_order \<Rightarrow> nat \<Rightarrow> 'a::len word \<Rightarrow> uint8 list" where
  "native_bytes order n w =
     (case order of LittleEndian \<Rightarrow> le_bytes n w | BigEndian \<Rightarrow> rev (le_bytes n w))"

definition native_word :: "byte_order \<Rightarrow> uint8 list \<Rightarrow> 'a::len word" where
  "native_word order bytes =
     (case order of LittleEndian \<Rightarrow> le_word bytes | BigEndian \<Rightarrow> le_word (rev bytes))"

subsection \<open>The record serializer\<close>

text \<open>\<^verbatim>\<open>struct cir_struct { int16 real; int16 img; };\<close>: four bytes, no padding.\<close>

record cir_struct =
  real :: int16
  img :: int16

definition cir_struct_bytes :: "byte_order \<Rightarrow> cir_struct \<Rightarrow> uint8 list" where
  "cir_struct_bytes order c = native_bytes order 2 (real c) @ native_bytes order 2 (img c)"

text \<open>\<^verbatim>\<open>cir = (struct cir_struct *) cir_buffer\<close>: the bytes of the buffer read as structs.\<close>

fun cir_cast :: "byte_order \<Rightarrow> uint8 list \<Rightarrow> cir_struct list" where
  "cir_cast order (a # b # c # d # rest) =
     \<lparr>real = native_word order [a, b], img = native_word order [c, d]\<rparr> # cir_cast order rest"
| "cir_cast order rest = []"

text \<open>
  \<^verbatim>\<open>saveCIRToFile\<close>. \<^verbatim>\<open>fwrite\<close> reads \<open>CIR_SAMPLES\<close> structs from \<open>cir\<close>: an array
  with fewer is read out of bounds (\<open>None\<close>). The results of \<^verbatim>\<open>fwrite\<close> and \<^verbatim>\<open>fclose\<close>
  are not looked at by the code, and the model takes both to succeed.
\<close>

definition saveCIRToFile ::
  "'w platform \<Rightarrow> string \<Rightarrow> int32 \<Rightarrow> uint64 \<Rightarrow> cir_struct list \<Rightarrow> 'w io \<Rightarrow> 'w io option" where
  "saveCIRToFile p filename msgNo rxTimestamp cir s =
     (let (output_file, w) = fopen_wb p filename (world s);
          s1 = did (Fopen filename) w s
      in if \<not> output_file then Some (printf (''unable to write'' @ [CHR 0x0A]) s1)
         else if length cir < CIR_SAMPLES then None
         else Some (s1\<lparr>files := files s1 @
                [(filename,
                  native_bytes (native_order p) 4 msgNo @
                  native_bytes (native_order p) 8 rxTimestamp @
                  concat (map (cir_struct_bytes (native_order p)) (take CIR_SAMPLES cir)))]\<rparr>))"

text \<open>
  The layout of section 6 of the specification, read back:
  \<^verbatim>\<open>int32 frame_index | uint64 rx_timestamp | (int16 real, int16 imag) x N\<close>, native byte
  order, nothing before or after. This parser is not part of the program; the round trip
  of the serializer is stated with it.
\<close>

definition parse_record ::
  "byte_order \<Rightarrow> nat \<Rightarrow> uint8 list \<Rightarrow> (int32 \<times> uint64 \<times> cir_struct list) option" where
  "parse_record order n bytes =
     (if length bytes = 4 + 8 + 4 * n
      then Some (native_word order (take 4 bytes),
                 native_word order (take 8 (drop 4 bytes)),
                 cir_cast order (drop 12 bytes))
      else None)"

subsection \<open>Formatting\<close>

text \<open>The decimal conversions of \<^verbatim>\<open>printf\<close>: \<^verbatim>\<open>%lu\<close> and \<^verbatim>\<open>%llu\<close>, and \<^verbatim>\<open>%ld\<close>.\<close>

definition digit :: "nat \<Rightarrow> char" where
  "digit d = char_of (48 + d)"

function show_nat :: "nat \<Rightarrow> string" where
  "show_nat n = (if n < 10 then [digit n] else show_nat (n div 10) @ [digit (n mod 10)])"
  by pat_completeness auto
termination
  by (relation "measure id") auto

definition show_int :: "int \<Rightarrow> string" where
  "show_int i = (if i < 0 then ''-'' @ show_nat (nat (- i)) else show_nat (nat i))"

definition crlf :: string where
  "crlf = [CHR 0x0D, CHR 0x0A]"

subsection \<open>The reception loop of main\<close>

text \<open>
  The variables of \<^verbatim>\<open>main\<close> that live across passes of the loop. \<open>diagnostics\<close> is
  written by the driver and never read, so it is left out. \<open>frame_count++\<close> on the
  largest \<^verbatim>\<open>int32\<close> is undefined in C; the model wraps around.
\<close>

record 'w main_state =
  sys :: "'w io"
  rx_timestamp :: uint64
  rx_buffer :: "uint8 list"
  cir_buffer :: "uint8 list"
  frame_count :: int32
  current_frame_count :: int32
  filename :: string
  status_reg :: uint32
  frame_len :: int32

text \<open>
  The argument handling before the loop: \<open>max_frame_count\<close> is what \<^verbatim>\<open>sscanf\<close> reads from
  \<open>argv[2]\<close>, and \<open>-1\<close> when there is no such argument or it does not parse. (With
  \<open>argc \<le> 1\<close> the program prints its usage and exits before the loop.)
\<close>

definition main_max_frame_count :: "'w platform \<Rightarrow> string list \<Rightarrow> int32" where
  "main_max_frame_count p argv =
     (if 2 < length argv
      then (case sscanf_ld p (argv ! 2) of Some n \<Rightarrow> n | None \<Rightarrow> - 1)
      else - 1)"

text \<open>
  \<^verbatim>\<open>while (!((status_reg = dwt_read32bitreg(SYS_STATUS_ID)) & (SYS_STATUS_RXFCG | SYS_STATUS_ALL_RX_ERR))) {}\<close>
  The loop has no bound: \<open>None\<close> is a poll that never ends.
\<close>

partial_function (option) poll_status :: "'w platform \<Rightarrow> 'w io \<Rightarrow> (uint32 \<times> 'w io) option" where
  "poll_status p s =
     (let (status, w) = dwt_read32bitreg_SYS_STATUS p (world s);
          s' = did Read_SYS_STATUS w s
      in if status AND (SYS_STATUS_RXFCG p OR SYS_STATUS_ALL_RX_ERR p) \<noteq> 0
         then Some (status, s')
         else poll_status p s')"

text \<open>The start of a pass: the notice, the two \<^verbatim>\<open>memset\<close> calls and \<^verbatim>\<open>dwt_rxenable\<close>.\<close>

definition arm :: "'w platform \<Rightarrow> 'w main_state \<Rightarrow> 'w main_state" where
  "arm p st =
     (let s1 = printf (''waiting for capture'' @ crlf) (sys st);
          s2 = did Rxenable (dwt_rxenable p (world s1)) s1
      in st\<lparr>sys := s2,
            rx_buffer := replicate RX_BUF_LEN 0,
            cir_buffer := replicate (4 * CIR_SAMPLES) 0\<rparr>)"

text \<open>The body of \<^verbatim>\<open>if (frame_len <= RX_BUF_LEN)\<close>; \<open>name\<close> is \<open>argv[1]\<close>.\<close>

definition capture :: "'w platform \<Rightarrow> string \<Rightarrow> 'w main_state \<Rightarrow> 'w main_state option" where
  "capture p name st =
     (let (bytes, w1) = dwt_readrxdata p (ucast (frame_len st)) 0 (world (sys st));
          s1 = did (Readrxdata (ucast (frame_len st)) 0) w1 (sys st);
          rxb = stored bytes (rx_buffer st);
          cfc = native_word (native_order p) (take 4 (drop RADAR_FRAME_DATA_IDX rxb));
          (ts, s2) = get_rx_timestamp_u64 p s1
      in case copyCIRToBuffer p (cir_buffer st) (of_nat (4 * CIR_SAMPLES)) s2 of
           None \<Rightarrow> None
         | Some (cir, s3) \<Rightarrow>
            (let s4 = did Readdiagnostics (dwt_readdiagnostics p (world s3)) s3;
                 s5 = printf (''MSG '' @ show_nat (unat cfc) @ '' received at '' @
                              show_nat (unat ts) @ crlf) s4;
                 fc = frame_count st + 1;
                 fname = take 63 (name @ ''_'' @ show_int (sint cfc) @ ''_cir.bin'');
                 s6 = printf (''writing observations to '' @ fname @ crlf) s5
             in case saveCIRToFile p fname cfc ts (cir_cast (native_order p) cir) s6 of
                  None \<Rightarrow> None
                | Some s7 \<Rightarrow>
                    Some (st\<lparr>sys := s7, rx_timestamp := ts, rx_buffer := rxb,
                             cir_buffer := cir, frame_count := fc,
                             current_frame_count := cfc, filename := fname\<rparr>)))"

text \<open>The two branches on \<open>status_reg\<close> after the poll.\<close>

definition on_event :: "'w platform \<Rightarrow> string \<Rightarrow> 'w main_state \<Rightarrow> 'w main_state option" where
  "on_event p name st =
     (if status_reg st AND SYS_STATUS_RXFCG p \<noteq> 0
      then
        (let s1 = did (Write_SYS_STATUS (SYS_STATUS_RXFCG p))
                    (dwt_write32bitreg_SYS_STATUS p (SYS_STATUS_RXFCG p) (world (sys st))) (sys st);
             (finfo, w2) = dwt_read32bitreg_RX_FINFO p (world s1);
             s2 = did Read_RX_FINFO w2 s1;
             st1 = st\<lparr>sys := s2, frame_len := finfo AND RX_FINFO_RXFL_MASK_1023 p\<rparr>
         in if frame_len st1 \<le>s of_nat RX_BUF_LEN then capture p name st1 else Some st1)
      else
        (let s1 = did (Write_SYS_STATUS (SYS_STATUS_ALL_RX_ERR p))
                    (dwt_write32bitreg_SYS_STATUS p (SYS_STATUS_ALL_RX_ERR p) (world (sys st))) (sys st);
             s2 = did Rxreset (dwt_rxreset p (world s1)) s1
         in Some (st\<lparr>sys := s2\<rparr>)))"

text \<open>
  One pass of \<^verbatim>\<open>while (1)\<close> after the check of the counter. The arrays have the sizes
  the copies need, so a pass is \<open>None\<close> only when its poll never ends (lemma
  \<open>rx_cycle_None\<close> below).
\<close>

definition rx_cycle :: "'w platform \<Rightarrow> string \<Rightarrow> 'w main_state \<Rightarrow> 'w main_state option" where
  "rx_cycle p name st =
     (let st1 = arm p st
      in case poll_status p (sys st1) of
           None \<Rightarrow> None
         | Some (status, s) \<Rightarrow> on_event p name (st1\<lparr>sys := s, status_reg := status\<rparr>))"

text \<open>
  \<^verbatim>\<open>while (1) { if (max_frame_count > 0 && frame_count >= max_frame_count) { ...; break; } ... }\<close>
  The result is the state at the \<^verbatim>\<open>break\<close>; \<open>None\<close> is a loop that never leaves.
\<close>

partial_function (option) main_loop ::
  "'w platform \<Rightarrow> string \<Rightarrow> int32 \<Rightarrow> 'w main_state \<Rightarrow> 'w main_state option" where
  "main_loop p name max_frame_count st =
     (if 0 <s max_frame_count \<and> max_frame_count \<le>s frame_count st
      then Some (st\<lparr>sys := printf (''test complete'' @ crlf) (sys st)\<rparr>)
      else Option.bind (rx_cycle p name st) (main_loop p name max_frame_count))"

text \<open>
  For the statements about a pass: the poll of the pass, the frame length the device
  reports after a good frame (the \<open>RX_FINFO\<close> read that follows the write clearing the
  status bit, masked), and the branch the pass takes.
\<close>

definition polled :: "'w platform \<Rightarrow> 'w main_state \<Rightarrow> (uint32 \<times> 'w io) option" where
  "polled p st = poll_status p (sys (arm p st))"

definition reported_frame_len :: "'w platform \<Rightarrow> 'w io \<Rightarrow> int32" where
  "reported_frame_len p s =
     fst (dwt_read32bitreg_RX_FINFO p
            (dwt_write32bitreg_SYS_STATUS p (SYS_STATUS_RXFCG p) (world s)))
       AND RX_FINFO_RXFL_MASK_1023 p"

datatype outcome = Good_frame | Oversized_frame | Rx_error

definition cycle_outcome :: "'w platform \<Rightarrow> 'w main_state \<Rightarrow> outcome option" where
  "cycle_outcome p st =
     (case polled p st of
        None \<Rightarrow> None
      | Some (status, s) \<Rightarrow>
          Some (if status AND SYS_STATUS_RXFCG p = 0 then Rx_error
                else if reported_frame_len p s \<le>s of_nat RX_BUF_LEN then Good_frame
                else Oversized_frame))"

text \<open>The driver and library calls a pass added to the log.\<close>

definition new_calls :: "'w main_state \<Rightarrow> 'w main_state \<Rightarrow> call list" where
  "new_calls st st' = drop (length (calls (sys st))) (calls (sys st'))"

definition diagnostics_reads :: "'w main_state \<Rightarrow> 'w main_state \<Rightarrow> nat" where
  "diagnostics_reads st st' = count_list (new_calls st st') Readdiagnostics"

text \<open>\<open>n\<close> passes of the loop body, without the check of the counter.\<close>

fun rx_cycles :: "nat \<Rightarrow> 'w platform \<Rightarrow> string \<Rightarrow> 'w main_state \<Rightarrow> 'w main_state option" where
  "rx_cycles 0 p name st = Some st"
| "rx_cycles (Suc n) p name st = Option.bind (rx_cycle p name st) (rx_cycles n p name)"

text \<open>
  The first \<open>n\<close> passes of the loop with the check of the counter: \<open>(True, st)\<close> when
  the loop left within them, in the state \<open>st\<close>, and \<open>(False, st)\<close> when it is still
  running after them.
\<close>

fun main_loop_prefix ::
  "nat \<Rightarrow> 'w platform \<Rightarrow> string \<Rightarrow> int32 \<Rightarrow> 'w main_state \<Rightarrow> (bool \<times> 'w main_state) option" where
  "main_loop_prefix 0 p name max_frame_count st = Some (False, st)"
| "main_loop_prefix (Suc n) p name max_frame_count st =
     (if 0 <s max_frame_count \<and> max_frame_count \<le>s frame_count st
      then Some (True, st\<lparr>sys := printf (''test complete'' @ crlf) (sys st)\<rparr>)
      else Option.bind (rx_cycle p name st) (main_loop_prefix n p name max_frame_count))"

text \<open>What a pass hands to the next one besides the arrays it clears and the variables it
  assigns before reading them: the platform with its log, and the counter.\<close>

definition carried :: "'w main_state \<Rightarrow> 'w io \<times> int32" where
  "carried st = (sys st, frame_count st)"

subsection \<open>A test bench\<close>

text \<open>
  A platform for concrete runs: every poll finds a good frame of 12 bytes, the accumulator
  holds the byte \<open>i mod 256\<close> at offset \<open>i\<close> and is read as section 4.2 describes, with
  the artifact \<open>0xEE\<close>, every file opens, and the byte order is little-endian. The
  register constants are those of the Decawave headers.
\<close>

definition ramp :: "nat \<Rightarrow> uint8" where
  "ramp i = of_nat i"

definition bench :: "unit platform" where
  "bench =
     \<lparr>SYS_STATUS_RXFCG = 0x4000,
      SYS_STATUS_ALL_RX_ERR = 0x24059000,
      RX_FINFO_RXFL_MASK_1023 = 0x3FF,
      native_order = LittleEndian,
      dwt_rxenable = (\<lambda>w. w),
      dwt_read32bitreg_SYS_STATUS = (\<lambda>w. (0x4000, w)),
      dwt_write32bitreg_SYS_STATUS = (\<lambda>v w. w),
      dwt_read32bitreg_RX_FINFO = (\<lambda>w. (12, w)),
      dwt_readrxdata = (\<lambda>n off w. (replicate (unat n) 0x2A, w)),
      dwt_readtxtimestamp = (\<lambda>w. ([1, 2, 3, 4, 5], w)),
      dwt_readrxtimestamp = (\<lambda>w. ([1, 2, 3, 4, 5], w)),
      dwt_readsystime = (\<lambda>w. ([1, 2, 3, 4, 5], w)),
      dwt_readaccdata = (\<lambda>n off w. (Some (spec_readaccdata ramp 0xEE n off), w)),
      dwt_readdiagnostics = (\<lambda>w. w),
      dwt_rxreset = (\<lambda>w. w),
      fopen_wb = (\<lambda>name w. (True, w)),
      sscanf_ld = (\<lambda>arg. if arg = ''3'' then Some 3 else if arg = ''0'' then Some 0 else None)\<rparr>"

definition boot :: "unit io" where
  "boot = \<lparr>world = (), calls = [], stdout = [], files = []\<rparr>"

text \<open>
  Variants of the bench: a device that reports frames of 100 bytes, a device that reports
  a CRC error at every poll, a disk on which no file opens, and an accumulator whose
  reads all fail. \<open>power_on\<close> is the state of \<^verbatim>\<open>main\<close> when it enters the loop (the
  arrays are cleared at the start of every pass).
\<close>

definition bench_oversized :: "unit platform" where
  "bench_oversized = bench\<lparr>dwt_read32bitreg_RX_FINFO := (\<lambda>w. (100, w))\<rparr>"

definition bench_rx_error :: "unit platform" where
  "bench_rx_error = bench\<lparr>dwt_read32bitreg_SYS_STATUS := (\<lambda>w. (0x8000, w))\<rparr>"

definition bench_no_disk :: "unit platform" where
  "bench_no_disk = bench\<lparr>fopen_wb := (\<lambda>name w. (False, w))\<rparr>"

definition bench_dead_acc :: "unit platform" where
  "bench_dead_acc = bench\<lparr>dwt_readaccdata := (\<lambda>n off w. (None, w))\<rparr>"


definition power_on :: "unit main_state" where
  "power_on =
     \<lparr>sys = boot, rx_timestamp = 0, rx_buffer = replicate RX_BUF_LEN 0,
      cir_buffer = replicate (4 * CIR_SAMPLES) 0, frame_count = 0,
      current_frame_count = 0, filename = [], status_reg = 0, frame_len = 0\<rparr>"

section \<open>Properties\<close>

declare show_nat.simps [simp del]

subsection \<open>Timestamp extraction\<close>

lemma ts_loop_bits:
  "(\<And>j. bit ts j \<Longrightarrow> j < 8 * k) \<Longrightarrow> bit (ts_loop tab n ts) j \<Longrightarrow> j < 8 * (k + n)"
proof (induction n arbitrary: ts k)
  case 0
  then show ?case by simp
next
  case (Suc n)
  have step: "j < 8 * Suc k" if "bit (push_bit 8 ts OR ucast (tab ! n) :: uint64) j" for j
  proof -
    from that consider "8 \<le> j" "bit ts (j - 8)" | "bit (tab ! n) j"
      by (auto simp: bit_simps)
    then show ?thesis
    proof cases
      case 1
      with Suc.prems(1)[of "j - 8"] show ?thesis by simp
    next
      case 2
      then have "j < 8" by (auto dest: bit_imp_le_length)
      then show ?thesis by simp
    qed
  qed
  from Suc.IH[OF step] Suc.prems(2) show ?case by simp
qed

lemma ts_loop_40: "take_bit 40 (ts_loop tab 5 0) = ts_loop tab 5 0"
proof (rule bit_eqI)
  fix j
  show "bit (take_bit 40 (ts_loop tab 5 0)) j = bit (ts_loop tab 5 0) j"
    using ts_loop_bits[of 0 0 tab 5 j] by (auto simp: bit_simps)
qed

lemma ts_loop_top: "drop_bit 40 (ts_loop tab 5 0) = 0"
proof (rule bit_eqI)
  fix j
  have "\<not> bit (ts_loop tab 5 0) (40 + j)"
    using ts_loop_bits[of 0 0 tab 5 "40 + j"] by auto
  then show "bit (drop_bit 40 (ts_loop tab 5 0)) j = bit (0 :: uint64) j"
    by (simp add: bit_simps)
qed

lemma ts_loop_less: "ts_loop tab 5 0 < 2 ^ 40"
proof -
  have "ts_loop tab 5 0 AND mask 40 < 2 ^ 40"
    by (rule and_mask_less_size) (simp add: word_size)
  then show ?thesis
    by (simp add: take_bit_eq_mask[symmetric] ts_loop_40)
qed

lemma ts_loop_5:
  "ts_loop [b0, b1, b2, b3, b4] 5 0 =
     push_bit 8 (push_bit 8 (push_bit 8 (push_bit 8 (ucast b4) OR ucast b3) OR ucast b2)
       OR ucast b1) OR ucast b0"
proof -
  have five: "(5::nat) = Suc (Suc (Suc (Suc (Suc 0))))" by simp
  show ?thesis unfolding five by simp
qed

lemma get_rx_timestamp_fst:
  "fst (get_rx_timestamp_u64 p s) = ts_loop (fst (dwt_readrxtimestamp p (world s))) 5 0"
  by (simp add: get_rx_timestamp_u64_def split: prod.split)

lemma get_tx_timestamp_fst:
  "fst (get_tx_timestamp_u64 p s) = ts_loop (fst (dwt_readtxtimestamp p (world s))) 5 0"
  by (simp add: get_tx_timestamp_u64_def split: prod.split)

lemma get_system_timestamp_fst:
  "fst (get_system_timestamp_u64 p s) = ts_loop (fst (dwt_readsystime p (world s))) 5 0"
  by (simp add: get_system_timestamp_u64_def split: prod.split)

text \<open>
  C4. Each of the three helpers returns what the loop computes from the five bytes the
  driver stored: the bytes are shifted in from \<open>ts_tab[4]\<close> down to \<open>ts_tab[0]\<close>, so the
  first byte ends up least significant; the bytes \<open>01 02 03 04 05\<close> give \<open>0x0504030201\<close>;
  and whatever the driver stored, the result is below \<open>2^40\<close>: its top 24 bits are zero.
\<close>

theorem timestamp_extraction:
  "fst (get_rx_timestamp_u64 p s) = ts_loop (fst (dwt_readrxtimestamp p (world s))) 5 0 \<and>
   fst (get_tx_timestamp_u64 p s) = ts_loop (fst (dwt_readtxtimestamp p (world s))) 5 0 \<and>
   fst (get_system_timestamp_u64 p s) = ts_loop (fst (dwt_readsystime p (world s))) 5 0 \<and>
   ts_loop [b0, b1, b2, b3, b4] 5 0 =
     push_bit 8 (push_bit 8 (push_bit 8 (push_bit 8 (ucast b4) OR ucast b3) OR ucast b2)
       OR ucast b1) OR ucast b0 \<and>
   ts_loop [0x01, 0x02, 0x03, 0x04, 0x05] 5 0 = 0x0504030201 \<and>
   fst (get_rx_timestamp_u64 bench boot) = 0x0504030201 \<and>
   drop_bit 40 (fst (get_rx_timestamp_u64 p s)) = 0 \<and>
   drop_bit 40 (fst (get_tx_timestamp_u64 p s)) = 0 \<and>
   drop_bit 40 (fst (get_system_timestamp_u64 p s)) = 0 \<and>
   fst (get_rx_timestamp_u64 p s) < 2 ^ 40"
proof -
  have ex: "ts_loop [0x01, 0x02, 0x03, 0x04, 0x05] 5 0 = 0x0504030201"
    unfolding ts_loop_5 by simp
  have bn: "ts_loop (fst (dwt_readrxtimestamp bench (world boot))) 5 0 = 0x0504030201"
    by (simp add: bench_def ex)
  show ?thesis
    unfolding get_rx_timestamp_fst get_tx_timestamp_fst get_system_timestamp_fst ts_loop_top
    using ts_loop_5 ex bn ts_loop_less by simp
qed

subsection \<open>The accumulator chunk reader\<close>

declare copyCIR_loop.simps [simp del]

lemma read_chunk_length: "length (fst (read_chunk p n loc s)) = 65"
  by (auto simp add: read_chunk_def stored_def ACC_CHUNK_def min_def split: prod.split option.split)

lemma read_chunk_io:
  "calls (snd (read_chunk p n loc s)) = calls s @ [Readaccdata n (word_of_int loc)]"
  "stdout (snd (read_chunk p n loc s)) = stdout s"
  "files (snd (read_chunk p n loc s)) = files s"
  by (simp_all add: read_chunk_def did_def split: prod.split)

lemma copyCIR_loop_last:
  "\<not> 64 < len \<Longrightarrow> copyCIR_loop p buffer len loc lastRead s =
     map_option (\<lambda>b. (b, snd (read_chunk p len loc s)))
       (memcpy buffer (nat loc) (fst (read_chunk p len loc s)) 1 (unat len))"
  by (subst copyCIR_loop.simps)
     (simp add: read_chunk_def ACC_CHUNK_def Let_def split: prod.split option.split)

lemma copyCIR_loop_more:
  "64 < len \<Longrightarrow> \<not> lastRead \<Longrightarrow> copyCIR_loop p buffer len loc lastRead s =
     (case memcpy buffer (nat loc) (fst (read_chunk p 64 loc s)) 1 64 of
        None \<Rightarrow> None
      | Some b \<Rightarrow> copyCIR_loop p b (len - 64) (loc + 64) lastRead (snd (read_chunk p 64 loc s)))"
  by (subst copyCIR_loop.simps)
     (simp add: read_chunk_def ACC_CHUNK_def Let_def split: prod.split option.split)

lemma big_len: "(64 :: uint16) < len \<Longrightarrow> unat (len - 64) = unat len - 64 \<and> 64 < unat len"
  by (simp add: unat_sub word_less_nat_alt word_le_nat_alt)

lemma small_len: "\<not> (64 :: uint16) < len \<Longrightarrow> unat len \<le> 64"
  by (simp add: word_less_nat_alt)

lemma acc_reads_last: "\<not> 64 < len \<Longrightarrow> acc_reads loc len = [Readaccdata len (word_of_int loc)]"
proof -
  assume "\<not> 64 < len"
  then have le: "unat len \<le> 64" by (rule small_len)
  then have "max 1 ((unat len + 63) div 64) = 1" by simp
  with le show ?thesis by (simp add: acc_reads_def)
qed

lemma acc_reads_more:
  assumes "64 < len"
  shows "acc_reads loc len = Readaccdata 64 (word_of_int loc) # acc_reads (loc + 64) (len - 64)"
proof -
  from big_len[OF assms] have u: "unat (len - 64) = unat len - 64" and b: "64 < unat len"
    by simp_all
  from b have n: "max 1 ((unat len + 63) div 64) = Suc (max 1 ((unat (len - 64) + 63) div 64))"
    unfolding u by simp
  have c: "64 * (Suc i + 1) < unat len \<longleftrightarrow> 64 * (i + 1) < unat (len - 64)" for i
    unfolding u using b by arith
  have s: "(if 64 * (Suc i + 1) < unat len then 64 else len - of_nat (64 * Suc i))
         = (if 64 * (i + 1) < unat (len - 64) then 64 else len - 64 - of_nat (64 * i))" for i
    unfolding c by simp
  have o: "(word_of_int (loc + 64 * int (Suc i)) :: uint16) = word_of_int (loc + 64 + 64 * int i)" for i
    by (simp add: algebra_simps)
  show ?thesis
    unfolding acc_reads_def n map_upt_Suc s o
    using b by simp
qed

lemma copyCIR_loop_returns:
  "\<not> lastRead \<Longrightarrow> 0 \<le> loc \<Longrightarrow> nat loc + unat len \<le> length buffer \<Longrightarrow>
   \<exists>buffer' s'. copyCIR_loop p buffer len loc lastRead s = Some (buffer', s') \<and>
     length buffer' = length buffer \<and>
     take (nat loc) buffer' = take (nat loc) buffer \<and>
     drop (nat loc + unat len) buffer' = drop (nat loc + unat len) buffer \<and>
     calls s' = calls s @ acc_reads loc len \<and> stdout s' = stdout s \<and> files s' = files s"
proof (induction "unat len" arbitrary: len loc buffer s rule: less_induct)
  case less
  show ?case
  proof (cases "64 < len")
    case False
    from small_len[OF False] have le: "unat len \<le> 64" .
    with less.prems show ?thesis
      by (simp add: copyCIR_loop_last[OF False] acc_reads_last[OF False] memcpy_def
          read_chunk_length read_chunk_io)
  next
    case True
    from big_len[OF True] have u: "unat (len - 64) = unat len - 64" and b: "64 < unat len"
      by simp_all
    let ?b = "take (nat loc) buffer @ take 64 (drop 1 (fst (read_chunk p 64 loc s))) @ drop (nat loc + 64) buffer"
    let ?s = "snd (read_chunk p 64 loc s)"
    have m: "memcpy buffer (nat loc) (fst (read_chunk p 64 loc s)) 1 64 = Some ?b"
      using less.prems b by (simp add: memcpy_def read_chunk_length)
    have lb: "length ?b = length buffer"
      using less.prems b by (simp add: read_chunk_length)
    have "unat (len - 64) < unat len" using u b by simp
    moreover have "0 \<le> loc + 64" using less.prems by simp
    moreover have "nat (loc + 64) + unat (len - 64) \<le> length ?b"
      unfolding lb u using less.prems b by (simp add: nat_add_distrib)
    ultimately obtain buffer' s' where
      r: "copyCIR_loop p ?b (len - 64) (loc + 64) lastRead ?s = Some (buffer', s')"
      and l: "length buffer' = length ?b"
      and t: "take (nat (loc + 64)) buffer' = take (nat (loc + 64)) ?b"
      and d: "drop (nat (loc + 64) + unat (len - 64)) buffer' = drop (nat (loc + 64) + unat (len - 64)) ?b"
      and c: "calls s' = calls ?s @ acc_reads (loc + 64) (len - 64)"
      and o: "stdout s' = stdout ?s" and f: "files s' = files ?s"
      using less.hyps[of "len - 64" "loc + 64" ?b ?s] less.prems(1) by blast
    have e: "nat (loc + 64) + unat (len - 64) = nat loc + unat len"
      unfolding u using less.prems b by (simp add: nat_add_distrib)
    have t': "take (nat loc) buffer' = take (nat loc) buffer"
    proof -
      have "take (nat loc) buffer' = take (nat loc) (take (nat (loc + 64)) buffer')"
        using less.prems by (simp add: min_def)
      also have "\<dots> = take (nat loc) ?b"
        unfolding t using less.prems by (simp add: min_def)
      also have "\<dots> = take (nat loc) buffer"
        using less.prems b by simp
      finally show ?thesis .
    qed
    have d': "drop (nat loc + unat len) buffer' = drop (nat loc + unat len) buffer"
      using d unfolding e using less.prems b by (simp add: read_chunk_length add.commute)
    have step: "copyCIR_loop p buffer len loc lastRead s = Some (buffer', s')"
      by (simp only: copyCIR_loop_more[OF True less.prems(1)] m option.case r)
    show ?thesis
      unfolding step using l t' d' c o f lb
      by (simp add: acc_reads_more[OF True] read_chunk_io)
  qed
qed


lemma unat_loc: "0 \<le> loc \<Longrightarrow> nat loc < 65536 \<Longrightarrow> unat (word_of_int loc :: uint16) = nat loc"
  by (simp add: unat_eq_nat_uint take_bit_int_eq_self word_of_int_inverse uint_word_of_int take_bit_eq_mod)

lemma read_chunk_spec:
  assumes "reads_accumulator p acc" "0 \<le> loc" "nat loc < 65536" "unat n \<le> 64"
  shows "take (unat n) (drop 1 (fst (read_chunk p n loc s))) = map acc [nat loc..<nat loc + unat n]"
proof -
  from assms(1) obtain g where
    g: "fst (dwt_readaccdata p n (word_of_int loc) (world s)) = Some (spec_readaccdata acc g n (word_of_int loc))"
    unfolding reads_accumulator_def by blast
  obtain r w where rw: "dwt_readaccdata p n (word_of_int loc) (world s) = (r, w)"
    by (cases "dwt_readaccdata p n (word_of_int loc) (world s)")
  with g have r: "r = Some (g # map acc [nat loc..<nat loc + unat n])"
    by (simp add: spec_readaccdata_def unat_loc[OF assms(2,3)])
  show ?thesis
    using assms(4) by (simp add: read_chunk_def rw r stored_def ACC_CHUNK_def)
qed

lemma copyCIR_loop_filled:
  assumes chunk: "\<And>n loc s. 0 \<le> loc \<Longrightarrow> nat loc < 65536 \<Longrightarrow> unat n \<le> 64 \<Longrightarrow>
      take (unat n) (drop 1 (fst (read_chunk p n loc s))) = map acc [nat loc..<nat loc + unat n]"
  shows "\<not> lastRead \<Longrightarrow> 0 \<le> loc \<Longrightarrow> nat loc + unat len \<le> length buffer \<Longrightarrow>
   nat loc + unat len < 65536 \<Longrightarrow>
   \<exists>s'. copyCIR_loop p buffer len loc lastRead s =
      Some (take (nat loc) buffer @ map acc [nat loc..<nat loc + unat len] @
            drop (nat loc + unat len) buffer, s')"
proof (induction "unat len" arbitrary: len loc buffer s rule: less_induct)
  case less
  from less.prems have l16: "nat loc < 65536" by simp
  show ?case
  proof (cases "64 < len")
    case False
    from small_len[OF False] have le: "unat len \<le> 64" .
    have "memcpy buffer (nat loc) (fst (read_chunk p len loc s)) 1 (unat len) =
        Some (take (nat loc) buffer @ map acc [nat loc..<nat loc + unat len] @
            drop (nat loc + unat len) buffer)"
      unfolding memcpy_def chunk[OF less.prems(2) l16 le]
      using less.prems le by (simp add: read_chunk_length)
    then show ?thesis
      by (simp add: copyCIR_loop_last[OF False])
  next
    case True
    from big_len[OF True] have u: "unat (len - 64) = unat len - 64" and b: "64 < unat len"
      by simp_all
    let ?b = "take (nat loc) buffer @ map acc [nat loc..<nat loc + 64] @ drop (nat loc + 64) buffer"
    let ?s = "snd (read_chunk p 64 loc s)"
    have "take (unat (64 :: uint16)) (drop 1 (fst (read_chunk p 64 loc s))) =
        map acc [nat loc..<nat loc + unat (64 :: uint16)]"
      by (rule chunk[OF less.prems(2) l16]) simp
    then have c: "take 64 (drop 1 (fst (read_chunk p 64 loc s))) = map acc [nat loc..<nat loc + 64]"
      by simp
    have m: "memcpy buffer (nat loc) (fst (read_chunk p 64 loc s)) 1 64 = Some ?b"
      unfolding memcpy_def c using less.prems b by (simp add: read_chunk_length)
    have lb: "length ?b = length buffer"
      using less.prems b by simp
    have e: "nat (loc + 64) = nat loc + 64" "nat loc + 64 + unat (len - 64) = nat loc + unat len"
      unfolding u using less.prems b by (simp_all add: nat_add_distrib)
    have "unat (len - 64) < unat len" using u b by simp
    moreover have "0 \<le> loc + 64" using less.prems by simp
    moreover have "nat (loc + 64) + unat (len - 64) \<le> length ?b"
      unfolding lb e using less.prems by simp
    moreover have "nat (loc + 64) + unat (len - 64) < 65536"
      unfolding e using less.prems by simp
    ultimately obtain s' where
      r: "copyCIR_loop p ?b (len - 64) (loc + 64) lastRead ?s =
          Some (take (nat (loc + 64)) ?b @
                map acc [nat (loc + 64)..<nat (loc + 64) + unat (len - 64)] @
                drop (nat (loc + 64) + unat (len - 64)) ?b, s')"
      using less.hyps[of "len - 64" "loc + 64" ?b ?s] less.prems(1) by blast
    have t: "take (nat loc + 64) ?b = take (nat loc) buffer @ map acc [nat loc..<nat loc + 64]"
      using less.prems b by simp
    have d: "drop (nat loc + unat len) ?b = drop (nat loc + unat len) buffer"
      using less.prems b by (simp add: add.commute)
    have a: "map acc [nat loc..<nat loc + 64] @ map acc [nat loc + 64..<nat loc + unat len]
        = map acc [nat loc..<nat loc + unat len]"
    proof -
      have "[nat loc..<nat loc + unat len] = [nat loc..<nat loc + 64] @ [nat loc + 64..<nat loc + unat len]"
        using b upt_add_eq_append[of "nat loc" "nat loc + 64" "unat len - 64"] by simp
      then show ?thesis by simp
    qed
    have step: "copyCIR_loop p buffer len loc lastRead s =
       Some (take (nat loc) buffer @ map acc [nat loc..<nat loc + unat len] @
            drop (nat loc + unat len) buffer, s')"
      unfolding copyCIR_loop_more[OF True less.prems(1)] m option.case r e t d
      using a by simp
    then show ?thesis by blast
  qed
qed

lemma copyCIR_loop_content:
  assumes "reads_accumulator p acc" "\<not> lastRead" "0 \<le> loc"
    "nat loc + unat len \<le> length buffer" "nat loc + unat len < 65536"
  shows "\<exists>s'. copyCIR_loop p buffer len loc lastRead s =
      Some (take (nat loc) buffer @ map acc [nat loc..<nat loc + unat len] @
            drop (nat loc + unat len) buffer, s')"
proof (rule copyCIR_loop_filled)
  show "take (unat n) (drop 1 (fst (read_chunk p n loc s))) = map acc [nat loc..<nat loc + unat n]"
    if "0 \<le> loc" "nat loc < 65536" "unat n \<le> 64" for n loc s
    using read_chunk_spec[OF assms(1) that] .
qed (use assms in simp_all)

lemma read_chunk_failed:
  assumes "\<And>n off w. fst (dwt_readaccdata p n off w) = None" "unat n \<le> 64"
  shows "take (unat n) (drop 1 (fst (read_chunk p n loc s))) =
         map (\<lambda>i. 0) [nat loc..<nat loc + unat n]"
proof -
  obtain r w where rw: "dwt_readaccdata p n (word_of_int loc) (world s) = (r, w)"
    by (cases "dwt_readaccdata p n (word_of_int loc) (world s)")
  with assms(1)[of n "word_of_int loc" "world s"] have r: "r = None" by simp
  show ?thesis
    using assms(2) by (simp add: read_chunk_def rw r ACC_CHUNK_def map_replicate_const)
qed

lemma len16: "unat (len :: uint16) < 65536"
  using unsigned_less[of len, where 'a = nat] by simp

lemma copyCIRToBuffer_content:
  assumes "reads_accumulator p acc" and "unat len \<le> length buffer"
  shows "\<exists>s'. copyCIRToBuffer p buffer len s =
            Some (map acc [0..<unat len] @ drop (unat len) buffer, s')"
  using len16[of len] copyCIR_loop_content[OF assms(1), of False 0 len buffer s] assms(2)
  by (simp add: copyCIRToBuffer_def)

lemma copyCIRToBuffer_failed:
  assumes "\<And>n off w. fst (dwt_readaccdata p n off w) = None" and "unat len \<le> length buffer"
  shows "\<exists>s'. copyCIRToBuffer p buffer len s =
            Some (replicate (unat len) 0 @ drop (unat len) buffer, s')"
proof -
  have "\<exists>s'. copyCIR_loop p buffer len 0 False s =
      Some (take (nat 0) buffer @ map (\<lambda>i. 0) [nat 0..<nat 0 + unat len] @
            drop (nat 0 + unat len) buffer, s')"
  proof (rule copyCIR_loop_filled)
    show "take (unat n) (drop 1 (fst (read_chunk p n loc s))) =
          map (\<lambda>i. 0) [nat loc..<nat loc + unat n]"
      if "0 \<le> loc" "nat loc < 65536" "unat n \<le> 64" for n loc s
      using read_chunk_failed[OF assms(1) that(3)] .
  qed (use assms(2) len16[of len] in simp_all)
  then show ?thesis
    by (simp add: copyCIRToBuffer_def map_replicate_const)
qed

lemma acc_reads_sizes:
  "c \<in> set (acc_reads loc len) \<Longrightarrow> \<exists>n off. c = Readaccdata n off \<and> n \<le> 64 \<and> (0 < len \<longrightarrow> 0 < n)"
proof (induction "unat len" arbitrary: len loc rule: less_induct)
  case less
  show ?case
  proof (cases "64 < len")
    case False
    with less.prems show ?thesis
      by (auto simp: acc_reads_last[OF False] not_less)
  next
    case True
    from big_len[OF True] have d: "unat (len - 64) < unat len" and "0 < unat (len - 64)"
      by simp_all
    then have "0 < len - 64"
      by (simp add: word_greater_zero_iff unat_gt_0)
    from less.prems consider "c = Readaccdata 64 (word_of_int loc)"
      | "c \<in> set (acc_reads (loc + 64) (len - 64))"
      by (auto simp: acc_reads_more[OF True])
    then show ?thesis
    proof cases
      case 1
      then show ?thesis by simp
    next
      case 2
      from less.hyps[OF d 2] \<open>0 < len - 64\<close> show ?thesis by blast
    qed
  qed
qed

text \<open>
  C1. On a platform whose accumulator read behaves as section 4.2 says (one leading
  artifact byte, then the requested bytes of the accumulator), \<^verbatim>\<open>copyCIRToBuffer\<close> with a
  destination of at least \<open>len\<close> bytes returns the destination with bytes \<open>0 .. len - 1\<close>
  equal to the accumulator bytes at the same offsets and every later byte untouched. The
  driver is called for \<open>64\<close> bytes at offsets \<open>0, 64, 128, ...\<close> and once for the rest.
  The artifact bytes, whatever they are, occur nowhere in the result. The statement holds
  for every \<open>len\<close>, so for each of the four shapes of the claim (and for \<open>len = 0\<close>).
\<close>

theorem copyCIRToBuffer_copies_len_bytes:
  assumes "reads_accumulator p acc" and "unat len \<le> length buffer"
  shows "\<exists>s'. copyCIRToBuffer p buffer len s =
            Some (map acc [0..<unat len] @ drop (unat len) buffer, s') \<and>
          calls s' = calls s @ acc_reads 0 len"
proof -
  from len16[of len] copyCIR_loop_content[OF assms(1), of False 0 len buffer s] assms(2)
  obtain s' where c: "copyCIR_loop p buffer len 0 False s =
      Some (map acc [0..<unat len] @ drop (unat len) buffer, s')"
    by auto
  from copyCIR_loop_returns[of False 0 len buffer p s] assms(2) c
  have "calls s' = calls s @ acc_reads 0 len" by auto
  with c show ?thesis by (simp add: copyCIRToBuffer_def)
qed

lemma acc_reads_130: "acc_reads 0 130 = [Readaccdata 64 0, Readaccdata 64 64, Readaccdata 2 128]"
  by (simp add: acc_reads_def upt_rec)

lemma bench_reads_accumulator: "reads_accumulator bench ramp"
  by (auto simp: reads_accumulator_def bench_def)

theorem copyCIRToBuffer_copies_len_bytes_witness:
  "reads_accumulator bench ramp \<and> unat (130 :: uint16) \<le> length (replicate 132 (0x55 :: uint8)) \<and>
   (\<exists>s'. copyCIRToBuffer bench (replicate 132 0x55) 130 boot =
            Some (map ramp [0..<130] @ replicate 2 0x55, s') \<and>
          calls s' = [Readaccdata 64 0, Readaccdata 64 64, Readaccdata 2 128])"
  using copyCIRToBuffer_copies_len_bytes[OF bench_reads_accumulator, of 130 "replicate 132 0x55" boot]
  by (simp add: bench_reads_accumulator acc_reads_130 boot_def)

text \<open>
  C9. \<open>copyCIR_loop\<close> is a total function: its termination proof uses the measure
  \<open>unat len\<close>, which a pass with \<open>64 < len\<close> decreases by \<open>64\<close> and a pass with
  \<open>len \<le> 64\<close> ends. With a destination of at least \<open>len\<close> bytes the call returns after
  \<open>max 1 \<lceil>len / 64\<rceil>\<close> driver reads, none longer than \<open>64\<close> bytes, and for \<open>0 < len\<close>
  none of length zero: a multiple of \<open>64\<close> is read in full chunks with no read after
  the last. For \<open>len = 0\<close> the one read the loop always makes has length zero.
\<close>

theorem copyCIRToBuffer_terminates:
  assumes "unat len \<le> length buffer"
  shows "(\<exists>buffer' s'. copyCIRToBuffer p buffer len s = Some (buffer', s') \<and>
            calls s' = calls s @ acc_reads 0 len) \<and>
         length (acc_reads 0 len) = max 1 ((unat len + 63) div 64) \<and>
         (\<forall>c \<in> set (acc_reads 0 len).
            \<exists>n off. c = Readaccdata n off \<and> n \<le> 64 \<and> (0 < len \<longrightarrow> 0 < n)) \<and>
         (64 < len \<longrightarrow> unat (len - 64) < unat len \<and>
            copyCIR_loop p buffer len loc False s =
              (case memcpy buffer (nat loc) (fst (read_chunk p 64 loc s)) 1 64 of
                 None \<Rightarrow> None
               | Some b \<Rightarrow> copyCIR_loop p b (len - 64) (loc + 64) False (snd (read_chunk p 64 loc s)))) \<and>
         (len \<le> 64 \<longrightarrow> copyCIR_loop p buffer len loc lastRead s =
              map_option (\<lambda>b. (b, snd (read_chunk p len loc s)))
                (memcpy buffer (nat loc) (fst (read_chunk p len loc s)) 1 (unat len)))"
proof -
  from copyCIR_loop_returns[of False 0 len buffer p s] assms
  have a: "\<exists>buffer' s'. copyCIRToBuffer p buffer len s = Some (buffer', s') \<and>
            calls s' = calls s @ acc_reads 0 len"
    by (auto simp: copyCIRToBuffer_def)
  have b: "length (acc_reads 0 len) = max 1 ((unat len + 63) div 64)"
    by (simp add: acc_reads_def)
  have c: "\<forall>c \<in> set (acc_reads 0 len).
            \<exists>n off. c = Readaccdata n off \<and> n \<le> 64 \<and> (0 < len \<longrightarrow> 0 < n)"
    using acc_reads_sizes by blast
  have d: "64 < len \<longrightarrow> unat (len - 64) < unat len \<and>
            copyCIR_loop p buffer len loc False s =
              (case memcpy buffer (nat loc) (fst (read_chunk p 64 loc s)) 1 64 of
                 None \<Rightarrow> None
               | Some b \<Rightarrow> copyCIR_loop p b (len - 64) (loc + 64) False (snd (read_chunk p 64 loc s)))"
    using big_len[of len] copyCIR_loop_more[of len False p buffer loc s] by auto
  have e: "len \<le> 64 \<longrightarrow> copyCIR_loop p buffer len loc lastRead s =
              map_option (\<lambda>b. (b, snd (read_chunk p len loc s)))
                (memcpy buffer (nat loc) (fst (read_chunk p len loc s)) 1 (unat len))"
    using copyCIR_loop_last[of len p buffer loc lastRead s] by (simp add: not_less[symmetric])
  from a b c d e show ?thesis by blast
qed

lemma acc_reads_128: "acc_reads 0 128 = [Readaccdata 64 0, Readaccdata 64 64]"
  by (simp add: acc_reads_def upt_rec)

theorem copyCIRToBuffer_terminates_witness:
  "unat (128 :: uint16) \<le> length (replicate 128 (0 :: uint8)) \<and>
   (\<exists>buffer' s'. copyCIRToBuffer bench (replicate 128 0) 128 boot = Some (buffer', s') \<and>
       calls s' = [Readaccdata 64 0, Readaccdata 64 64]) \<and>
   length (acc_reads 0 128) = 2"
  using copyCIRToBuffer_terminates[of 128 "replicate 128 0" bench boot 0 False]
  by (simp add: acc_reads_128 boot_def)

subsection \<open>The record serializer\<close>

lemma length_le_bytes [simp]: "length (le_bytes n w) = n"
  by (simp add: le_bytes_def)

lemma length_native_bytes [simp]: "length (native_bytes order n w) = n"
  by (simp add: native_bytes_def split: byte_order.split)

lemma bit_le_word:
  "bit (le_word bs :: 'a::len word) j \<longleftrightarrow>
     j < LENGTH('a) \<and> j div 8 < length bs \<and> bit (bs ! (j div 8)) (j mod 8)"
proof (induction bs arbitrary: j)
  case Nil
  then show ?case by simp
next
  case (Cons b bs)
  show ?case
  proof (cases "j < 8")
    case True
    then show ?thesis
      by (auto simp: bit_simps dest: bit_imp_le_length)
  next
    case False
    then have d: "j div 8 = Suc ((j - 8) div 8)" and m: "j mod 8 = (j - 8) mod 8"
      by (simp_all add: le_div_geq le_mod_geq)
    from False show ?thesis
      unfolding le_word.simps bit_or_iff bit_push_bit_iff Cons.IH d m
      by (auto simp: bit_simps dest: bit_imp_le_length)
  qed
qed

lemma le_word_le_bytes:
  "LENGTH('a::len) \<le> 8 * n \<Longrightarrow> le_word (le_bytes n (w :: 'a word)) = w"
proof (rule bit_eqI)
  fix j
  assume n: "LENGTH('a) \<le> 8 * n"
  show "bit (le_word (le_bytes n w) :: 'a word) j = bit w j"
  proof (cases "j < LENGTH('a)")
    case True
    with n have "j div 8 < n" by (simp add: less_mult_imp_div_less mult.commute)
    with True show ?thesis
      by (simp add: bit_le_word le_bytes_def bit_simps)
  next
    case False
    then show ?thesis
      by (auto simp: bit_le_word dest: bit_imp_le_length)
  qed
qed

lemma native_word_bytes:
  "LENGTH('a::len) \<le> 8 * n \<Longrightarrow> native_word order (native_bytes order n (w :: 'a word)) = w"
  by (simp add: native_word_def native_bytes_def le_word_le_bytes split: byte_order.split)

lemma native_bytes_2: "\<exists>a b. native_bytes order 2 w = [a, b]"
  by (simp add: native_bytes_def le_bytes_def upt_rec split: byte_order.split)

lemma cir_cast_bytes:
  "cir_cast order (concat (map (cir_struct_bytes order) cir)) = cir"
proof (induction cir)
  case Nil
  then show ?case by simp
next
  case (Cons c cir)
  obtain a b where r: "native_bytes order 2 (real c) = [a, b]"
    using native_bytes_2 by blast
  obtain d e where i: "native_bytes order 2 (img c) = [d, e]"
    using native_bytes_2 by blast
  have "native_word order [a, b] = real c" "native_word order [d, e] = img c"
    using native_word_bytes[of 2 order "real c"] native_word_bytes[of 2 order "img c"]
    by (simp_all add: r i)
  moreover have "cir_struct_bytes order c = [a, b, d, e]"
    by (simp add: cir_struct_bytes_def r i)
  ultimately show ?case
    by (simp add: Cons.IH)
qed

lemma length_cir_bytes:
  "length (concat (map (cir_struct_bytes order) cir)) = 4 * length cir"
  by (induction cir) (simp_all add: cir_struct_bytes_def)


lemma le_bytes_2_le_word: "le_bytes 2 (le_word [a, b] :: 16 word) = [a, b]"
proof -
  have "ucast (ucast a OR push_bit 8 (ucast b) :: 16 word) = a"
    by (rule bit_eqI) (auto simp: bit_simps dest: bit_imp_le_length)
  moreover have "ucast (drop_bit 8 (ucast a OR push_bit 8 (ucast b) :: 16 word)) = b"
    by (rule bit_eqI) (auto simp: bit_simps dest: bit_imp_le_length)
  ultimately show ?thesis
    by (simp add: le_bytes_def upt_rec)
qed

lemma native_bytes_2_word: "native_bytes order 2 (native_word order [a, b] :: 16 word) = [a, b]"
  using le_bytes_2_le_word[of a b] le_bytes_2_le_word[of b a]
  by (simp add: native_bytes_def native_word_def split: byte_order.split)

lemma quad:
  "length xs = 4 * Suc n \<Longrightarrow> \<exists>a b c d rest. xs = a # b # c # d # rest \<and> length rest = 4 * n"
proof -
  assume "length xs = 4 * Suc n"
  then have "length xs = Suc (Suc (Suc (Suc (4 * n))))" by simp
  then show ?thesis by (auto simp: length_Suc_conv)
qed

lemma cir_bytes_cast:
  "length bytes = 4 * n \<Longrightarrow> concat (map (cir_struct_bytes order) (cir_cast order bytes)) = bytes"
proof (induction n arbitrary: bytes)
  case 0
  then show ?case by simp
next
  case (Suc n)
  then obtain a b c d rest where b: "bytes = a # b # c # d # rest" and r: "length rest = 4 * n"
    using quad[of bytes n] by blast
  have "cir_struct_bytes order \<lparr>real = native_word order [a, b], img = native_word order [c, d]\<rparr>
      = [a, b, c, d]"
    by (simp add: cir_struct_bytes_def native_bytes_2_word)
  then show ?case
    unfolding b by (simp add: Suc.IH[OF r])
qed

lemma length_cir_cast: "length bytes = 4 * n \<Longrightarrow> length (cir_cast order bytes) = n"
proof (induction n arbitrary: bytes)
  case 0
  then show ?case by simp
next
  case (Suc n)
  then obtain a b c d rest where b: "bytes = a # b # c # d # rest" and r: "length rest = 4 * n"
    using quad[of bytes n] by blast
  show ?case
    unfolding b by (simp add: Suc.IH[OF r])
qed

lemma saveCIRToFile_written:
  assumes "fst (fopen_wb p path (world s))" and "length cir = CIR_SAMPLES"
  shows "\<exists>s' content. saveCIRToFile p path msgNo rxTimestamp cir s = Some s' \<and>
     files s' = files s @ [(path, content)] \<and>
     content = native_bytes (native_order p) 4 msgNo @ native_bytes (native_order p) 8 rxTimestamp @
        concat (map (\<lambda>c. native_bytes (native_order p) 2 (real c) @
                          native_bytes (native_order p) 2 (img c)) cir) \<and>
     length content = 4 + 8 + 4 * CIR_SAMPLES \<and>
     parse_record (native_order p) CIR_SAMPLES content = Some (msgNo, rxTimestamp, cir)"
proof -
  let ?o = "native_order p"
  let ?c = "native_bytes ?o 4 msgNo @ native_bytes ?o 8 rxTimestamp @
        concat (map (cir_struct_bytes ?o) cir)"
  obtain w where w: "fopen_wb p path (world s) = (True, w)"
    using assms(1) by (cases "fopen_wb p path (world s)") simp
  have sv: "saveCIRToFile p path msgNo rxTimestamp cir s =
      Some ((did (Fopen path) w s)\<lparr>files := files (did (Fopen path) w s) @ [(path, ?c)]\<rparr>)"
    using assms(2) by (simp add: saveCIRToFile_def w Let_def)
  have fl: "files (did (Fopen path) w s) = files s"
    by (simp add: did_def)
  have ln: "length ?c = 4 + 8 + 4 * CIR_SAMPLES"
    using assms(2) by (simp add: length_cir_bytes)
  have pr: "parse_record ?o CIR_SAMPLES ?c = Some (msgNo, rxTimestamp, cir)"
    unfolding parse_record_def ln
    by (simp add: native_word_bytes cir_cast_bytes)
  have eq: "cir_struct_bytes ?o = (\<lambda>c. native_bytes ?o 2 (real c) @ native_bytes ?o 2 (img c))"
    by (rule ext) (simp add: cir_struct_bytes_def)
  show ?thesis
    using sv fl ln pr unfolding eq by simp
qed

text \<open>
  C3. When the file opens, \<^verbatim>\<open>saveCIRToFile\<close> with an array of \<open>CIR_SAMPLES\<close> samples writes
  one file of \<open>4 + 8 + 4 * CIR_SAMPLES\<close> bytes: the frame index, the timestamp, then for
  each sample its real and its imaginary part, each integer in the native byte order,
  with nothing before, between or after. Reading that layout back gives the frame index,
  the timestamp and the samples that were written.
\<close>

theorem saveCIRToFile_layout:
  assumes "fst (fopen_wb p path (world s))" and "length cir = CIR_SAMPLES"
  shows "\<exists>s' content. saveCIRToFile p path msgNo rxTimestamp cir s = Some s' \<and>
     files s' = files s @ [(path, content)] \<and>
     content = native_bytes (native_order p) 4 msgNo @ native_bytes (native_order p) 8 rxTimestamp @
        concat (map (\<lambda>c. native_bytes (native_order p) 2 (real c) @
                          native_bytes (native_order p) 2 (img c)) cir) \<and>
     length content = 4 + 8 + 4 * CIR_SAMPLES \<and>
     parse_record (native_order p) CIR_SAMPLES content = Some (msgNo, rxTimestamp, cir)"
  using assms by (rule saveCIRToFile_written)

theorem saveCIRToFile_layout_witness:
  "fst (fopen_wb bench ''t_7_cir.bin'' (world boot)) \<and>
   length (replicate CIR_SAMPLES \<lparr>real = 1, img = 0xFFFF\<rparr>) = CIR_SAMPLES \<and>
   (\<exists>s' content. saveCIRToFile bench ''t_7_cir.bin'' 7 0x0504030201
        (replicate CIR_SAMPLES \<lparr>real = 1, img = 0xFFFF\<rparr>) boot = Some s' \<and>
     files s' = [(''t_7_cir.bin'', content)] \<and>
     content = [7, 0, 0, 0] @ [1, 2, 3, 4, 5, 0, 0, 0] @
        concat (replicate CIR_SAMPLES [1, 0, 255, 255]) \<and>
     length content = 4076 \<and>
     parse_record LittleEndian CIR_SAMPLES content =
       Some (7, 0x0504030201, replicate CIR_SAMPLES \<lparr>real = 1, img = 0xFFFF\<rparr>))"
proof -
  have o: "native_order bench = LittleEndian" and f: "fst (fopen_wb bench ''t_7_cir.bin'' w)" for w
    by (simp_all add: bench_def)
  have b: "native_bytes LittleEndian 4 (7 :: int32) = [7, 0, 0, 0]"
    "native_bytes LittleEndian 8 (0x0504030201 :: uint64) = [1, 2, 3, 4, 5, 0, 0, 0]"
    "native_bytes LittleEndian 2 (1 :: int16) = [1, 0]"
    "native_bytes LittleEndian 2 (0xFFFF :: int16) = [255, 255]"
    by (simp_all add: native_bytes_def le_bytes_def upt_rec drop_bit_eq_div)
  show ?thesis
    using saveCIRToFile_layout[where p = bench and path = "''t_7_cir.bin''" and s = boot
        and cir = "replicate CIR_SAMPLES \<lparr>real = 1, img = 0xFFFF\<rparr>" and msgNo = 7
        and rxTimestamp = "0x0504030201"]
    by (simp add: o f b boot_def CIR_SAMPLES_def map_replicate_const)
qed

subsection \<open>One pass of the reception loop\<close>

lemma poll_status_Some:
  assumes "poll_status p s = Some r"
  shows "fst r AND (SYS_STATUS_RXFCG p OR SYS_STATUS_ALL_RX_ERR p) \<noteq> 0 \<and>
         (\<exists>k. calls (snd r) = calls s @ replicate (Suc k) Read_SYS_STATUS) \<and>
         stdout (snd r) = stdout s \<and> files (snd r) = files s"
  using assms
proof (induction rule: poll_status.raw_induct[rotated 1, consumes 1, case_names step])
  case (step poll p s r)
  obtain status w where rd: "dwt_read32bitreg_SYS_STATUS p (world s) = (status, w)"
    by (cases "dwt_read32bitreg_SYS_STATUS p (world s)")
  let ?s = "did Read_SYS_STATUS w s"
  show ?case
  proof (cases "status AND (SYS_STATUS_RXFCG p OR SYS_STATUS_ALL_RX_ERR p) \<noteq> 0")
    case True
    with step(2) rd have "r = (status, ?s)" by simp
    moreover have "calls ?s = calls s @ replicate (Suc 0) Read_SYS_STATUS"
      by (simp add: did_def)
    ultimately show ?thesis
      using True by (auto simp: did_def)
  next
    case False
    with step(2) rd have "poll p ?s = Some r" by simp
    from step(1)[OF this] obtain k where
      "calls (snd r) = calls ?s @ replicate (Suc k) Read_SYS_STATUS"
      and rest: "fst r AND (SYS_STATUS_RXFCG p OR SYS_STATUS_ALL_RX_ERR p) \<noteq> 0"
        "stdout (snd r) = stdout ?s" "files (snd r) = files ?s"
      by blast
    then have "calls (snd r) = calls s @ replicate (Suc (Suc k)) Read_SYS_STATUS"
      by (simp add: did_def replicate_app_Cons_same)
    with rest show ?thesis
      by (auto simp: did_def simp del: replicate_Suc)
  qed
qed

lemma saveCIRToFile_cases:
  assumes "length cir = CIR_SAMPLES"
  shows "\<exists>s'. saveCIRToFile p path m t cir s = Some s' \<and>
       calls s' = calls s @ [Fopen path] \<and>
       (if fst (fopen_wb p path (world s))
        then stdout s' = stdout s \<and>
             (\<exists>content. files s' = files s @ [(path, content)] \<and>
                length content = 4 + 8 + 4 * CIR_SAMPLES \<and>
                parse_record (native_order p) CIR_SAMPLES content = Some (m, t, cir))
        else files s' = files s \<and> stdout s' = stdout s @ [''unable to write'' @ [CHR 0x0A]])"
proof (cases "fst (fopen_wb p path (world s))")
  case True
  from saveCIRToFile_written[OF True assms, of m t] obtain s' content where
    sv: "saveCIRToFile p path m t cir s = Some s'"
    and rest: "files s' = files s @ [(path, content)]" "length content = 4 + 8 + 4 * CIR_SAMPLES"
      "parse_record (native_order p) CIR_SAMPLES content = Some (m, t, cir)"
    by blast
  have "calls s' = calls s @ [Fopen path] \<and> stdout s' = stdout s"
    using sv True assms
    by (auto simp: saveCIRToFile_def did_def Let_def split: prod.splits)
  with sv rest True show ?thesis by auto
next
  case False
  then show ?thesis
    by (auto simp: saveCIRToFile_def did_def printf_def Let_def split: prod.splits)
qed


lemma get_rx_timestamp_io:
  "get_rx_timestamp_u64 p s = (ts, s') \<Longrightarrow>
     calls s' = calls s @ [Readrxtimestamp] \<and> stdout s' = stdout s \<and> files s' = files s"
  by (auto simp: get_rx_timestamp_u64_def did_def split: prod.splits)

lemma cir_len16: "unat (of_nat (4 * CIR_SAMPLES) :: uint16) = 4 * CIR_SAMPLES"
  by (simp add: CIR_SAMPLES_def)

lemma capture_returns:
  assumes len: "length (cir_buffer st) = 4 * CIR_SAMPLES"
  shows "\<exists>st'. capture p name st = Some st' \<and>
     frame_count st' = frame_count st + 1 \<and>
     length (cir_buffer st') = 4 * CIR_SAMPLES \<and>
     calls (sys st') = calls (sys st) @
        [Readrxdata (ucast (frame_len st)) 0, Readrxtimestamp] @
        acc_reads 0 (of_nat (4 * CIR_SAMPLES)) @ [Readdiagnostics, Fopen (filename st')] \<and>
     (files (sys st') = files (sys st) \<or>
      (\<exists>content. files (sys st') = files (sys st) @ [(filename st', content)] \<and>
         length content = 4 + 8 + 4 * CIR_SAMPLES \<and>
         parse_record (native_order p) CIR_SAMPLES content =
           Some (current_frame_count st', rx_timestamp st',
                 cir_cast (native_order p) (cir_buffer st')))) \<and>
     ((\<forall>path w. fst (fopen_wb p path w)) \<longrightarrow>
        files (sys st') \<noteq> files (sys st)) \<and>
     ((\<forall>path w. \<not> fst (fopen_wb p path w)) \<longrightarrow>
        files (sys st') = files (sys st)) \<and>
     (\<forall>acc. reads_accumulator p acc \<longrightarrow> cir_buffer st' = map acc [0..<4 * CIR_SAMPLES]) \<and>
     ((\<forall>n off w. fst (dwt_readaccdata p n off w) = None) \<longrightarrow>
        cir_buffer st' = replicate (4 * CIR_SAMPLES) 0) \<and>
     (\<exists>s2 s3. copyCIRToBuffer p (cir_buffer st) (of_nat (4 * CIR_SAMPLES)) s2 =
        Some (cir_buffer st', s3))"
proof -
  obtain bytes w1 where rd:
    "dwt_readrxdata p (ucast (frame_len st)) 0 (world (sys st)) = (bytes, w1)"
    by (cases "dwt_readrxdata p (ucast (frame_len st)) 0 (world (sys st))")
  define s1 where "s1 = did (Readrxdata (ucast (frame_len st)) 0) w1 (sys st)"
  define rxb where "rxb = stored bytes (rx_buffer st)"
  define cfc :: int32 where
    "cfc = native_word (native_order p) (take 4 (drop RADAR_FRAME_DATA_IDX rxb))"
  obtain ts s2 where gt: "get_rx_timestamp_u64 p s1 = (ts, s2)"
    by (cases "get_rx_timestamp_u64 p s1")
  note io2 = get_rx_timestamp_io[OF gt]
  from copyCIR_loop_returns[of False 0 "of_nat (4 * CIR_SAMPLES)" "cir_buffer st" p s2] len
  obtain cir s3 where cp: "copyCIRToBuffer p (cir_buffer st) (of_nat (4 * CIR_SAMPLES)) s2 = Some (cir, s3)"
    and lc: "length cir = 4 * CIR_SAMPLES"
    and io3: "calls s3 = calls s2 @ acc_reads 0 (of_nat (4 * CIR_SAMPLES))"
      "stdout s3 = stdout s2" "files s3 = files s2"
    by (auto simp: copyCIRToBuffer_def cir_len16 simp del: of_nat_mult)
  define s4 where "s4 = did Readdiagnostics (dwt_readdiagnostics p (world s3)) s3"
  define s5 where "s5 = printf (''MSG '' @ show_nat (unat cfc) @ '' received at '' @
                              show_nat (unat ts) @ crlf) s4"
  define fname where "fname = take 63 (name @ ''_'' @ show_int (sint cfc) @ ''_cir.bin'')"
  define s6 where "s6 = printf (''writing observations to '' @ fname @ crlf) s5"
  have lcc: "length (cir_cast (native_order p) cir) = CIR_SAMPLES"
    using lc by (rule length_cir_cast)
  from saveCIRToFile_cases[OF lcc, of p fname cfc ts s6]
  obtain s7 where sv: "saveCIRToFile p fname cfc ts (cir_cast (native_order p) cir) s6 = Some s7"
    and io7: "calls s7 = calls s6 @ [Fopen fname]"
    and f7: "if fst (fopen_wb p fname (world s6))
        then stdout s7 = stdout s6 \<and>
             (\<exists>content. files s7 = files s6 @ [(fname, content)] \<and>
                length content = 4 + 8 + 4 * CIR_SAMPLES \<and>
                parse_record (native_order p) CIR_SAMPLES content =
                  Some (cfc, ts, cir_cast (native_order p) cir))
        else files s7 = files s6 \<and> stdout s7 = stdout s6 @ [''unable to write'' @ [CHR 0x0A]]"
    by blast
  define st' where "st' = st\<lparr>sys := s7, rx_timestamp := ts, rx_buffer := rxb,
      cir_buffer := cir, frame_count := frame_count st + 1,
      current_frame_count := cfc, filename := fname\<rparr>"
  have cap: "capture p name st = Some st'"
    unfolding capture_def Let_def rd prod.case s1_def[symmetric] rxb_def[symmetric]
      cfc_def[symmetric] gt cp option.case s4_def[symmetric] s5_def[symmetric]
      fname_def[symmetric] s6_def[symmetric] sv st'_def
    by (rule refl)
  have f6: "files s6 = files (sys st)"
    by (simp add: s6_def s5_def s4_def printf_def did_def io3 io2 s1_def)
  have c6: "calls s6 = calls (sys st) @ [Readrxdata (ucast (frame_len st)) 0, Readrxtimestamp] @
        acc_reads 0 (of_nat (4 * CIR_SAMPLES)) @ [Readdiagnostics]"
    by (simp add: s6_def s5_def s4_def printf_def did_def io3 io2 s1_def del: of_nat_mult)
  show ?thesis
  proof (intro exI[of _ st'] conjI)
    show "capture p name st = Some st'" by (rule cap)
    show "frame_count st' = frame_count st + 1" by (simp add: st'_def)
    show "length (cir_buffer st') = 4 * CIR_SAMPLES" by (simp add: st'_def lc)
    show "calls (sys st') = calls (sys st) @
        [Readrxdata (ucast (frame_len st)) 0, Readrxtimestamp] @
        acc_reads 0 (of_nat (4 * CIR_SAMPLES)) @ [Readdiagnostics, Fopen (filename st')]"
      by (simp add: st'_def io7 c6 del: of_nat_mult)
    show "files (sys st') = files (sys st) \<or>
      (\<exists>content. files (sys st') = files (sys st) @ [(filename st', content)] \<and>
         length content = 4 + 8 + 4 * CIR_SAMPLES \<and>
         parse_record (native_order p) CIR_SAMPLES content =
           Some (current_frame_count st', rx_timestamp st',
                 cir_cast (native_order p) (cir_buffer st')))"
      using f7 by (cases "fst (fopen_wb p fname (world s6))") (auto simp: st'_def f6)
    show "(\<forall>path w. fst (fopen_wb p path w)) \<longrightarrow> files (sys st') \<noteq> files (sys st)"
      using f7 by (auto simp: st'_def f6)
    show "(\<forall>path w. \<not> fst (fopen_wb p path w)) \<longrightarrow> files (sys st') = files (sys st)"
      using f7 by (auto simp: st'_def f6)
    show "\<forall>acc. reads_accumulator p acc \<longrightarrow> cir_buffer st' = map acc [0..<4 * CIR_SAMPLES]"
    proof (intro allI impI)
      fix acc
      assume "reads_accumulator p acc"
      from copyCIRToBuffer_content[OF this, of "of_nat (4 * CIR_SAMPLES)" "cir_buffer st" s2] len cp
      show "cir_buffer st' = map acc [0..<4 * CIR_SAMPLES]"
        by (auto simp: st'_def cir_len16 simp del: of_nat_mult)
    qed
    show "(\<forall>n off w. fst (dwt_readaccdata p n off w) = None) \<longrightarrow>
        cir_buffer st' = replicate (4 * CIR_SAMPLES) 0"
    proof
      assume "\<forall>n off w. fst (dwt_readaccdata p n off w) = None"
      then have "\<And>n off w. fst (dwt_readaccdata p n off w) = None" by blast
      from copyCIRToBuffer_failed[OF this, of "of_nat (4 * CIR_SAMPLES)" "cir_buffer st" s2] len cp
      show "cir_buffer st' = replicate (4 * CIR_SAMPLES) 0"
        by (auto simp: st'_def cir_len16 simp del: of_nat_mult)
    qed
    show "\<exists>s2 s3. copyCIRToBuffer p (cir_buffer st) (of_nat (4 * CIR_SAMPLES)) s2 =
        Some (cir_buffer st', s3)"
      using cp by (auto simp: st'_def simp del: of_nat_mult)
  qed
qed


lemma arm_facts:
  "frame_count (arm p st) = frame_count st"
  "files (sys (arm p st)) = files (sys st)"
  "calls (sys (arm p st)) = calls (sys st) @ [Rxenable]"
  "stdout (sys (arm p st)) = stdout (sys st) @ [''waiting for capture'' @ crlf]"
  "length (cir_buffer (arm p st)) = 4 * CIR_SAMPLES"
  "cir_buffer (arm p st) = replicate (4 * CIR_SAMPLES) 0"
  "rx_buffer (arm p st) = replicate RX_BUF_LEN 0"
  by (simp_all add: arm_def Let_def printf_def did_def)

lemma rx_cycle_polled:
  "rx_cycle p name st =
     (case polled p st of
        None \<Rightarrow> None
      | Some (status, s) \<Rightarrow> on_event p name ((arm p st)\<lparr>sys := s, status_reg := status\<rparr>))"
  by (simp add: rx_cycle_def polled_def Let_def)

lemma polled_Some:
  assumes "polled p st = Some (status, s)"
  shows "status AND (SYS_STATUS_RXFCG p OR SYS_STATUS_ALL_RX_ERR p) \<noteq> 0 \<and>
         (\<exists>k. calls s = calls (sys st) @ Rxenable # replicate (Suc k) Read_SYS_STATUS) \<and>
         stdout s = stdout (sys st) @ [''waiting for capture'' @ crlf] \<and>
         files s = files (sys st)"
  using poll_status_Some[OF assms[unfolded polled_def]] by (simp add: arm_facts)

lemma new_calls_append:
  "calls (sys st') = calls (sys st) @ cs \<Longrightarrow> new_calls st st' = cs"
  by (simp add: new_calls_def)

lemma rx_cycle_rx_error:
  assumes "cycle_outcome p st = Some Rx_error"
  shows "\<exists>st' k. rx_cycle p name st = Some st' \<and>
     frame_count st' = frame_count st \<and> files (sys st') = files (sys st) \<and>
     stdout (sys st') = stdout (sys st) @ [''waiting for capture'' @ crlf] \<and>
     calls (sys st') = calls (sys st) @ Rxenable # replicate (Suc k) Read_SYS_STATUS @
        [Write_SYS_STATUS (SYS_STATUS_ALL_RX_ERR p), Rxreset]"
proof -
  from assms obtain status s where po: "polled p st = Some (status, s)"
    and z: "status AND SYS_STATUS_RXFCG p = 0"
    by (auto simp: cycle_outcome_def split: option.splits if_splits)
  from polled_Some[OF po] obtain k where
    c: "calls s = calls (sys st) @ Rxenable # replicate (Suc k) Read_SYS_STATUS"
    and o: "stdout s = stdout (sys st) @ [''waiting for capture'' @ crlf]"
    and f: "files s = files (sys st)"
    by blast
  let ?s1 = "did (Write_SYS_STATUS (SYS_STATUS_ALL_RX_ERR p))
               (dwt_write32bitreg_SYS_STATUS p (SYS_STATUS_ALL_RX_ERR p) (world s)) s"
  let ?st' = "(arm p st)\<lparr>sys := did Rxreset (dwt_rxreset p (world ?s1)) ?s1, status_reg := status\<rparr>"
  have "rx_cycle p name st = Some ?st'"
    by (simp add: rx_cycle_polled po on_event_def z Let_def)
  moreover have "calls (sys ?st') = calls (sys st) @ (Rxenable # replicate (Suc k) Read_SYS_STATUS @
        [Write_SYS_STATUS (SYS_STATUS_ALL_RX_ERR p), Rxreset])"
    by (simp add: did_def c)
  ultimately show ?thesis
    using o f
    by (intro exI[of _ ?st'] exI[of _ k]) (simp add: arm_facts did_def)
qed

lemma rx_cycle_oversized:
  assumes "cycle_outcome p st = Some Oversized_frame"
  shows "\<exists>st' k. rx_cycle p name st = Some st' \<and>
     frame_count st' = frame_count st \<and> files (sys st') = files (sys st) \<and>
     stdout (sys st') = stdout (sys st) @ [''waiting for capture'' @ crlf] \<and>
     calls (sys st') = calls (sys st) @ Rxenable # replicate (Suc k) Read_SYS_STATUS @
        [Write_SYS_STATUS (SYS_STATUS_RXFCG p), Read_RX_FINFO]"
proof -
  from assms obtain status s where po: "polled p st = Some (status, s)"
    and z: "status AND SYS_STATUS_RXFCG p \<noteq> 0"
    and big: "\<not> reported_frame_len p s \<le>s of_nat RX_BUF_LEN"
    by (auto simp: cycle_outcome_def split: option.splits if_splits)
  from polled_Some[OF po] obtain k where
    c: "calls s = calls (sys st) @ Rxenable # replicate (Suc k) Read_SYS_STATUS"
    and o: "stdout s = stdout (sys st) @ [''waiting for capture'' @ crlf]"
    and f: "files s = files (sys st)"
    by blast
  let ?s1 = "did (Write_SYS_STATUS (SYS_STATUS_RXFCG p))
               (dwt_write32bitreg_SYS_STATUS p (SYS_STATUS_RXFCG p) (world s)) s"
  obtain finfo w2 where fi: "dwt_read32bitreg_RX_FINFO p (world ?s1) = (finfo, w2)"
    by (cases "dwt_read32bitreg_RX_FINFO p (world ?s1)")
  then have rl: "reported_frame_len p s = finfo AND RX_FINFO_RXFL_MASK_1023 p"
    by (simp add: reported_frame_len_def did_def)
  let ?st' = "(arm p st)\<lparr>sys := did Read_RX_FINFO w2 ?s1, status_reg := status,
      frame_len := finfo AND RX_FINFO_RXFL_MASK_1023 p\<rparr>"
  have "rx_cycle p name st = Some ?st'"
    using big by (simp add: rx_cycle_polled po on_event_def z Let_def fi rl)
  moreover have "calls (sys ?st') = calls (sys st) @ (Rxenable # replicate (Suc k) Read_SYS_STATUS @
        [Write_SYS_STATUS (SYS_STATUS_RXFCG p), Read_RX_FINFO])"
    by (simp add: did_def c)
  ultimately show ?thesis
    using o f
    by (intro exI[of _ ?st'] exI[of _ k]) (simp add: arm_facts did_def)
qed

lemma rx_cycle_good:
  assumes "cycle_outcome p st = Some Good_frame"
  shows "\<exists>st' k. rx_cycle p name st = Some st' \<and>
     frame_count st' = frame_count st + 1 \<and>
     calls (sys st') = calls (sys st) @ Rxenable # replicate (Suc k) Read_SYS_STATUS @
        [Write_SYS_STATUS (SYS_STATUS_RXFCG p), Read_RX_FINFO,
         Readrxdata (ucast (frame_len st')) 0, Readrxtimestamp] @
        acc_reads 0 (of_nat (4 * CIR_SAMPLES)) @ [Readdiagnostics, Fopen (filename st')] \<and>
     (files (sys st') = files (sys st) \<or>
      (\<exists>content. files (sys st') = files (sys st) @ [(filename st', content)] \<and>
         length content = 4 + 8 + 4 * CIR_SAMPLES \<and>
         parse_record (native_order p) CIR_SAMPLES content =
           Some (current_frame_count st', rx_timestamp st',
                 cir_cast (native_order p) (cir_buffer st')))) \<and>
     ((\<forall>path w. fst (fopen_wb p path w)) \<longrightarrow> files (sys st') \<noteq> files (sys st)) \<and>
     ((\<forall>path w. \<not> fst (fopen_wb p path w)) \<longrightarrow> files (sys st') = files (sys st)) \<and>
     (\<forall>acc. reads_accumulator p acc \<longrightarrow> cir_buffer st' = map acc [0..<4 * CIR_SAMPLES]) \<and>
     ((\<forall>n off w. fst (dwt_readaccdata p n off w) = None) \<longrightarrow>
        cir_buffer st' = replicate (4 * CIR_SAMPLES) 0) \<and>
     (\<exists>s2 s3. copyCIRToBuffer p (replicate (4 * CIR_SAMPLES) 0) (of_nat (4 * CIR_SAMPLES)) s2 =
        Some (cir_buffer st', s3))"
proof -
  from assms obtain status s where po: "polled p st = Some (status, s)"
    and z: "status AND SYS_STATUS_RXFCG p \<noteq> 0"
    and fits: "reported_frame_len p s \<le>s of_nat RX_BUF_LEN"
    by (auto simp: cycle_outcome_def split: option.splits if_splits)
  from polled_Some[OF po] obtain k where
    c: "calls s = calls (sys st) @ Rxenable # replicate (Suc k) Read_SYS_STATUS"
    and f: "files s = files (sys st)"
    by blast
  let ?s1 = "did (Write_SYS_STATUS (SYS_STATUS_RXFCG p))
               (dwt_write32bitreg_SYS_STATUS p (SYS_STATUS_RXFCG p) (world s)) s"
  obtain finfo w2 where fi: "dwt_read32bitreg_RX_FINFO p (world ?s1) = (finfo, w2)"
    by (cases "dwt_read32bitreg_RX_FINFO p (world ?s1)")
  then have rl: "reported_frame_len p s = finfo AND RX_FINFO_RXFL_MASK_1023 p"
    by (simp add: reported_frame_len_def did_def)
  let ?st1 = "(arm p st)\<lparr>status_reg := status, sys := did Read_RX_FINFO w2 ?s1,
      frame_len := finfo AND RX_FINFO_RXFL_MASK_1023 p\<rparr>"
  have rc: "rx_cycle p name st = capture p name ?st1"
    using fits by (simp add: rx_cycle_polled po on_event_def z Let_def fi rl)
  have l1: "length (cir_buffer ?st1) = 4 * CIR_SAMPLES"
    by (simp add: arm_facts)
  from capture_returns[OF l1, of p name] obtain st' where
    cap: "capture p name ?st1 = Some st'"
    and fc: "frame_count st' = frame_count ?st1 + 1"
    and cl: "calls (sys st') = calls (sys ?st1) @
        [Readrxdata (ucast (frame_len ?st1)) 0, Readrxtimestamp] @
        acc_reads 0 (of_nat (4 * CIR_SAMPLES)) @ [Readdiagnostics, Fopen (filename st')]"
    and fl: "files (sys st') = files (sys ?st1) \<or>
      (\<exists>content. files (sys st') = files (sys ?st1) @ [(filename st', content)] \<and>
         length content = 4 + 8 + 4 * CIR_SAMPLES \<and>
         parse_record (native_order p) CIR_SAMPLES content =
           Some (current_frame_count st', rx_timestamp st',
                 cir_cast (native_order p) (cir_buffer st')))"
    and fa: "(\<forall>path w. fst (fopen_wb p path w)) \<longrightarrow> files (sys st') \<noteq> files (sys ?st1)"
    and fn: "(\<forall>path w. \<not> fst (fopen_wb p path w)) \<longrightarrow> files (sys st') = files (sys ?st1)"
    and ca: "\<forall>acc. reads_accumulator p acc \<longrightarrow> cir_buffer st' = map acc [0..<4 * CIR_SAMPLES]"
    and cz: "(\<forall>n off w. fst (dwt_readaccdata p n off w) = None) \<longrightarrow>
        cir_buffer st' = replicate (4 * CIR_SAMPLES) 0"
    and cc: "\<exists>s2 s3. copyCIRToBuffer p (cir_buffer ?st1) (of_nat (4 * CIR_SAMPLES)) s2 =
        Some (cir_buffer st', s3)"
    by blast
  have cc': "\<exists>s2 s3. copyCIRToBuffer p (replicate (4 * CIR_SAMPLES) 0)
        (of_nat (4 * CIR_SAMPLES)) s2 = Some (cir_buffer st', s3)"
    using cc by (simp add: arm_facts del: of_nat_mult)
  have fl': "frame_len st' = finfo AND RX_FINFO_RXFL_MASK_1023 p"
    using cap by (auto simp: capture_def Let_def split: prod.splits option.splits)
  have f1: "files (sys ?st1) = files (sys st)"
    by (simp add: did_def f)
  have "calls (sys st') = calls (sys st) @ (Rxenable # replicate (Suc k) Read_SYS_STATUS @
        [Write_SYS_STATUS (SYS_STATUS_RXFCG p), Read_RX_FINFO,
         Readrxdata (ucast (frame_len st')) 0, Readrxtimestamp] @
        acc_reads 0 (of_nat (4 * CIR_SAMPLES)) @ [Readdiagnostics, Fopen (filename st')])"
    unfolding cl fl' by (simp add: did_def c del: of_nat_mult)
  with rc cap fc fl fa fn ca cz cc' show ?thesis
    unfolding f1 by (intro exI[of _ st'] exI[of _ k]) (simp add: arm_facts del: of_nat_mult)
qed

lemma cycle_outcome_None: "cycle_outcome p st = None \<longleftrightarrow> polled p st = None"
  by (auto simp: cycle_outcome_def split: option.splits)

lemma rx_cycle_None: "rx_cycle p name st = None \<longleftrightarrow> polled p st = None"
proof (cases "cycle_outcome p st")
  case None
  then show ?thesis
    by (simp add: cycle_outcome_None rx_cycle_polled)
next
  case (Some out)
  then have "polled p st \<noteq> None"
    using cycle_outcome_None[of p st] by auto
  moreover have "rx_cycle p name st \<noteq> None"
    using Some rx_cycle_good[of p st name] rx_cycle_oversized[of p st name]
      rx_cycle_rx_error[of p st name]
    by (cases out) auto
  ultimately show ?thesis by blast
qed

subsection \<open>Runs on the test bench\<close>

lemma polled_first:
  assumes "dwt_read32bitreg_SYS_STATUS p (world (sys (arm p st))) = (v, w)"
    and "v AND (SYS_STATUS_RXFCG p OR SYS_STATUS_ALL_RX_ERR p) \<noteq> 0"
  shows "polled p st = Some (v, did Read_SYS_STATUS w (sys (arm p st)))"
  unfolding polled_def using assms by (subst poll_status.simps) simp

lemma bench_outcomes:
  "cycle_outcome bench st = Some Good_frame"
  "cycle_outcome bench_no_disk st = Some Good_frame"
  "cycle_outcome bench_dead_acc st = Some Good_frame"
  "cycle_outcome bench_oversized st = Some Oversized_frame"
  "cycle_outcome bench_rx_error st = Some Rx_error"
proof -
  have "polled bench st = Some (0x4000, did Read_SYS_STATUS () (sys (arm bench st)))"
    by (rule polled_first) (simp_all add: bench_def)
  then show "cycle_outcome bench st = Some Good_frame"
    by (simp add: cycle_outcome_def reported_frame_len_def bench_def RX_BUF_LEN_def)
  have "polled bench_no_disk st = Some (0x4000, did Read_SYS_STATUS () (sys (arm bench_no_disk st)))"
    by (rule polled_first) (simp_all add: bench_def bench_no_disk_def)
  then show "cycle_outcome bench_no_disk st = Some Good_frame"
    by (simp add: cycle_outcome_def reported_frame_len_def bench_def bench_no_disk_def RX_BUF_LEN_def)
  have "polled bench_dead_acc st = Some (0x4000, did Read_SYS_STATUS () (sys (arm bench_dead_acc st)))"
    by (rule polled_first) (simp_all add: bench_def bench_dead_acc_def)
  then show "cycle_outcome bench_dead_acc st = Some Good_frame"
    by (simp add: cycle_outcome_def reported_frame_len_def bench_def bench_dead_acc_def RX_BUF_LEN_def)
  have "polled bench_oversized st = Some (0x4000, did Read_SYS_STATUS () (sys (arm bench_oversized st)))"
    by (rule polled_first) (simp_all add: bench_def bench_oversized_def)
  then show "cycle_outcome bench_oversized st = Some Oversized_frame"
    by (simp add: cycle_outcome_def reported_frame_len_def bench_def bench_oversized_def RX_BUF_LEN_def)
  have "polled bench_rx_error st = Some (0x8000, did Read_SYS_STATUS () (sys (arm bench_rx_error st)))"
    by (rule polled_first) (simp_all add: bench_def bench_rx_error_def)
  then show "cycle_outcome bench_rx_error st = Some Rx_error"
    by (simp add: cycle_outcome_def reported_frame_len_def bench_def bench_rx_error_def RX_BUF_LEN_def)
qed

lemma cycle_outcome_oversized:
  assumes "polled p st = Some (status, s)" "status AND SYS_STATUS_RXFCG p \<noteq> 0"
    "of_nat RX_BUF_LEN <s reported_frame_len p s"
  shows "cycle_outcome p st = Some Oversized_frame"
  using assms by (auto simp: cycle_outcome_def word_sless_alt word_sle_eq)

text \<open>
  C5. A pass whose poll ends with the good-frame bit set and whose reported frame length
  is above \<open>RX_BUF_LEN = 24\<close> returns with the counter and the files unchanged: no file
  is opened and only the notice of the pass is printed. The loop then goes on from the
  state the pass left.
\<close>

theorem oversized_frame_dropped:
  assumes "polled p st = Some (status, s)"
    and "status AND SYS_STATUS_RXFCG p \<noteq> 0"
    and "of_nat RX_BUF_LEN <s reported_frame_len p s"
  shows "\<exists>st'. rx_cycle p name st = Some st' \<and>
      frame_count st' = frame_count st \<and>
      files (sys st') = files (sys st) \<and>
      (\<forall>path. Fopen path \<notin> set (new_calls st st')) \<and>
      stdout (sys st') = stdout (sys st) @ [''waiting for capture'' @ crlf] \<and>
      (\<not> (0 <s max_frame_count \<and> max_frame_count \<le>s frame_count st) \<longrightarrow>
         main_loop p name max_frame_count st = main_loop p name max_frame_count st')"
proof -
  from rx_cycle_oversized[OF cycle_outcome_oversized[OF assms], of name]
  obtain st' k where r: "rx_cycle p name st = Some st'"
    and fc: "frame_count st' = frame_count st" and fl: "files (sys st') = files (sys st)"
    and out: "stdout (sys st') = stdout (sys st) @ [''waiting for capture'' @ crlf]"
    and c: "calls (sys st') = calls (sys st) @ Rxenable # replicate (Suc k) Read_SYS_STATUS @
        [Write_SYS_STATUS (SYS_STATUS_RXFCG p), Read_RX_FINFO]"
    by blast
  have "\<forall>path. Fopen path \<notin> set (new_calls st st')"
    unfolding new_calls_append[OF c] by auto
  moreover have "main_loop p name max_frame_count st = main_loop p name max_frame_count st'"
    if "\<not> (0 <s max_frame_count \<and> max_frame_count \<le>s frame_count st)"
    using that r by (subst main_loop.simps) auto
  ultimately show ?thesis
    using r fc fl out by blast
qed

theorem oversized_frame_dropped_witness:
  "polled bench_oversized power_on =
     Some (0x4000, \<lparr>world = (), calls = [Rxenable, Read_SYS_STATUS],
                    stdout = [''waiting for capture'' @ crlf], files = []\<rparr>) \<and>
   (0x4000 :: uint32) AND SYS_STATUS_RXFCG bench_oversized \<noteq> 0 \<and>
   of_nat RX_BUF_LEN <s reported_frame_len bench_oversized
      \<lparr>world = (), calls = [Rxenable, Read_SYS_STATUS],
       stdout = [''waiting for capture'' @ crlf], files = []\<rparr> \<and>
   (\<exists>st'. rx_cycle bench_oversized ''t'' power_on = Some st' \<and>
      frame_count st' = 0 \<and> files (sys st') = [] \<and>
      (\<forall>path. Fopen path \<notin> set (new_calls power_on st')) \<and>
      main_loop bench_oversized ''t'' 3 power_on = main_loop bench_oversized ''t'' 3 st')"
proof -
  let ?s = "\<lparr>world = (), calls = [Rxenable, Read_SYS_STATUS],
             stdout = [''waiting for capture'' @ crlf], files = []\<rparr> :: unit io"
  have a: "polled bench_oversized power_on = Some (0x4000, ?s)"
    by (subst polled_first[where v = "0x4000" and w = "()"])
       (simp_all add: bench_oversized_def bench_def arm_def power_on_def boot_def printf_def
          did_def Let_def)
  have b: "(0x4000 :: uint32) AND SYS_STATUS_RXFCG bench_oversized \<noteq> 0"
    by (simp add: bench_oversized_def bench_def)
  have c: "of_nat RX_BUF_LEN <s reported_frame_len bench_oversized ?s"
    by (simp add: reported_frame_len_def bench_oversized_def bench_def RX_BUF_LEN_def)
  have d: "frame_count power_on = 0" "files (sys power_on) = []"
    by (simp_all add: power_on_def boot_def)
  have e: "\<not> ((0 :: int32) <s 3 \<and> 3 \<le>s frame_count power_on)"
    by (simp add: d word_sle_eq)
  show ?thesis
    using oversized_frame_dropped[OF a b c, of "''t''" 3] a b c e
    by (auto simp: d)
qed

lemma capture_carried:
  assumes "sys a = sys b" "frame_count a = frame_count b" "rx_buffer a = rx_buffer b"
    "cir_buffer a = cir_buffer b" "frame_len a = frame_len b"
  shows "map_option carried (capture p name a) = map_option carried (capture p name b)"
  unfolding capture_def Let_def assms
  by (simp add: carried_def split: prod.split option.split)

lemma on_event_carried:
  assumes "sys a = sys b" "frame_count a = frame_count b" "rx_buffer a = rx_buffer b"
    "cir_buffer a = cir_buffer b" "status_reg a = status_reg b"
  shows "map_option carried (on_event p name a) = map_option carried (on_event p name b)"
proof -
  have c: "map_option carried (capture p name (a\<lparr>sys := s, frame_len := l\<rparr>)) =
           map_option carried (capture p name (b\<lparr>sys := s, frame_len := l\<rparr>))" for s l
    by (rule capture_carried) (simp_all add: assms)
  show ?thesis
    unfolding on_event_def Let_def assms
    by (simp add: c carried_def assms split: prod.split)
qed

lemma rx_cycle_carried:
  assumes "carried st2 = carried st"
  shows "map_option carried (rx_cycle p name st2) = map_option carried (rx_cycle p name st)"
proof -
  from assms have e: "sys st2 = sys st" "frame_count st2 = frame_count st"
    by (simp_all add: carried_def)
  have a: "sys (arm p st2) = sys (arm p st)"
    by (simp add: arm_def Let_def e)
  have o: "map_option carried (on_event p name ((arm p st2)\<lparr>sys := s, status_reg := v\<rparr>)) =
           map_option carried (on_event p name ((arm p st)\<lparr>sys := s, status_reg := v\<rparr>))" for s v
    by (rule on_event_carried) (simp_all add: arm_def Let_def e)
  show ?thesis
    unfolding rx_cycle_def Let_def a
    by (simp add: o split: option.split prod.split)
qed

subsection \<open>Diagnostics\<close>

lemma count_acc_reads: "count_list (acc_reads loc len) Readdiagnostics = 0"
  by (auto simp: count_list_0_iff acc_reads_def)

lemma count_polls: "count_list (replicate n Read_SYS_STATUS) Readdiagnostics = 0"
  by (simp add: count_list_0_iff)

lemma cycle_outcome_Some:
  assumes "rx_cycle p name st = Some st'"
  shows "\<exists>out. cycle_outcome p st = Some out"
proof -
  from assms have "polled p st \<noteq> None"
    using rx_cycle_None[of p name st] by simp
  then show ?thesis
    using cycle_outcome_None[of p st] by auto
qed

lemma diagnostics_reads_pass:
  assumes "rx_cycle p name st = Some st'"
  shows "diagnostics_reads st st' = (if cycle_outcome p st = Some Good_frame then 1 else 0)"
proof -
  from cycle_outcome_Some[OF assms] obtain out where out: "cycle_outcome p st = Some out"
    by blast
  show ?thesis
  proof (cases out)
    case Good_frame
    from rx_cycle_good[OF out[unfolded Good_frame], of name] assms obtain k where
      "calls (sys st') = calls (sys st) @ Rxenable # replicate (Suc k) Read_SYS_STATUS @
        [Write_SYS_STATUS (SYS_STATUS_RXFCG p), Read_RX_FINFO,
         Readrxdata (ucast (frame_len st')) 0, Readrxtimestamp] @
        acc_reads 0 (of_nat (4 * CIR_SAMPLES)) @ [Readdiagnostics, Fopen (filename st')]"
      by auto
    from new_calls_append[OF this] show ?thesis
      by (simp add: diagnostics_reads_def out Good_frame count_acc_reads count_polls
          del: of_nat_mult replicate_Suc)
  next
    case Oversized_frame
    from rx_cycle_oversized[OF out[unfolded Oversized_frame], of name] assms obtain k where
      "calls (sys st') = calls (sys st) @ Rxenable # replicate (Suc k) Read_SYS_STATUS @
        [Write_SYS_STATUS (SYS_STATUS_RXFCG p), Read_RX_FINFO]"
      by auto
    from new_calls_append[OF this] show ?thesis
      by (simp add: diagnostics_reads_def out Oversized_frame count_polls del: replicate_Suc)
  next
    case Rx_error
    from rx_cycle_rx_error[OF out[unfolded Rx_error], of name] assms obtain k where
      "calls (sys st') = calls (sys st) @ Rxenable # replicate (Suc k) Read_SYS_STATUS @
        [Write_SYS_STATUS (SYS_STATUS_ALL_RX_ERR p), Rxreset]"
      by auto
    from new_calls_append[OF this] show ?thesis
      by (simp add: diagnostics_reads_def out Rx_error count_polls del: replicate_Suc)
  qed
qed

text \<open>
  C8, as stated, fails: on the bench that reports a CRC error at every poll, and on the
  bench that reports frames of 100 bytes, a pass returns without a single
  \<^verbatim>\<open>dwt_readdiagnostics\<close> call.
\<close>

theorem diagnostics_skipped_on_rx_error:
  "map_option (diagnostics_reads power_on) (rx_cycle bench_rx_error ''t'' power_on) = Some 0 \<and>
   cycle_outcome bench_rx_error power_on = Some Rx_error \<and>
   map_option (diagnostics_reads power_on) (rx_cycle bench_oversized ''t'' power_on) = Some 0 \<and>
   cycle_outcome bench_oversized power_on = Some Oversized_frame"
proof -
  from rx_cycle_rx_error[OF bench_outcomes(5)[of power_on], of "''t''"]
  obtain st1 where a: "rx_cycle bench_rx_error ''t'' power_on = Some st1" by blast
  from rx_cycle_oversized[OF bench_outcomes(4)[of power_on], of "''t''"]
  obtain st2 where b: "rx_cycle bench_oversized ''t'' power_on = Some st2" by blast
  show ?thesis
    using diagnostics_reads_pass[OF a] diagnostics_reads_pass[OF b]
    by (simp add: a b bench_outcomes)
qed

text \<open>
  C8, amended. \<^verbatim>\<open>dwt_readdiagnostics\<close> is called inside the branch
  \<^verbatim>\<open>if (frame_len <= RX_BUF_LEN)\<close>: a pass that returns has read the diagnostics exactly
  once when it ended in a good frame that fits the frame buffer, and not at all when it
  ended in an oversized frame or in an RX error.
\<close>

theorem diagnostics_read_once_per_captured_frame:
  assumes "rx_cycle p name st = Some st'"
  shows "diagnostics_reads st st' = (if cycle_outcome p st = Some Good_frame then 1 else 0)"
  using assms by (rule diagnostics_reads_pass)

theorem diagnostics_read_once_per_captured_frame_witness:
  "\<exists>st'. rx_cycle bench ''t'' power_on = Some st' \<and> diagnostics_reads power_on st' = 1"
proof -
  from rx_cycle_good[OF bench_outcomes(1)[of power_on], of "''t''"]
  obtain st' where a: "rx_cycle bench ''t'' power_on = Some st'" by blast
  from diagnostics_read_once_per_captured_frame[OF a] a show ?thesis
    by (simp add: bench_outcomes)
qed

subsection \<open>The counter\<close>

lemma sint_succ:
  assumes "sint (x :: int32) < 2 ^ 31 - 1"
  shows "sint (x + 1) = sint x + 1"
proof -
  have "- (2 ^ 31) \<le> sint x"
    using sint_ge[of x] by simp
  with assms have "signed_take_bit 31 (sint x + 1) = sint x + 1"
    by (intro signed_take_bit_int_eq_self) simp_all
  then show ?thesis
    by (simp add: sint_word_add)
qed

lemma frame_count_pass:
  assumes "rx_cycle p name st = Some st'"
  shows "frame_count st' =
     (if cycle_outcome p st = Some Good_frame then frame_count st + 1 else frame_count st)"
proof -
  from cycle_outcome_Some[OF assms] obtain out where out: "cycle_outcome p st = Some out"
    by blast
  show ?thesis
    using assms rx_cycle_good[of p st name] rx_cycle_oversized[of p st name]
      rx_cycle_rx_error[of p st name] out
    by (cases out) auto
qed

lemma files_pass_no_disk:
  assumes "rx_cycle p name st = Some st'" and "\<forall>path w. \<not> fst (fopen_wb p path w)"
  shows "files (sys st') = files (sys st)"
proof -
  from cycle_outcome_Some[OF assms(1)] obtain out where out: "cycle_outcome p st = Some out"
    by blast
  show ?thesis
    using assms rx_cycle_good[of p st name] rx_cycle_oversized[of p st name]
      rx_cycle_rx_error[of p st name] out
    by (cases out) auto
qed

text \<open>
  C6, as stated, fails: on the bench where no file opens, the first pass receives a good
  frame, writes no record, and leaves the counter at \<open>1\<close>.
\<close>

theorem counter_incremented_without_record:
  "frame_count power_on = 0 \<and>
   map_option frame_count (rx_cycle bench_no_disk ''t'' power_on) = Some 1 \<and>
   map_option (files \<circ> sys) (rx_cycle bench_no_disk ''t'' power_on) = Some [] \<and>
   fopen_wb bench_no_disk ''t_707406378_cir.bin'' () = (False, ())"
proof -
  have nd: "\<forall>path w. \<not> fst (fopen_wb bench_no_disk path w)"
    by (simp add: bench_no_disk_def)
  from rx_cycle_good[OF bench_outcomes(2)[of power_on], of "''t''"]
  obtain st' where a: "rx_cycle bench_no_disk ''t'' power_on = Some st'" by blast
  have p0: "frame_count power_on = 0" "files (sys power_on) = []"
    by (simp_all add: power_on_def boot_def)
  have fo: "fopen_wb bench_no_disk ''t_707406378_cir.bin'' () = (False, ())"
    by (simp add: bench_no_disk_def)
  from frame_count_pass[OF a] have c: "frame_count st' = 1"
    by (simp add: bench_outcomes p0)
  from files_pass_no_disk[OF a nd] have f: "files (sys st') = []"
    by (simp add: p0)
  show ?thesis
    by (simp add: a p0 fo c f)
qed

text \<open>
  C6, amended. \<^verbatim>\<open>frame_count++\<close> stands before the call of \<^verbatim>\<open>saveCIRToFile\<close>, which
  returns nothing. A pass that returns has incremented the counter by one exactly when it
  ended in a good frame that fits the frame buffer, whether or not the record was written
  (on a disk where no file opens the files are unchanged); the counter does not decrease
  (below the largest \<^verbatim>\<open>int32\<close>); and what a pass does to the platform and the counter
  depends on the state it starts from only through the platform and the counter.
\<close>

theorem frame_count_counts_captured_frames:
  assumes "rx_cycle p name st = Some st'"
  shows "frame_count st' =
           (if cycle_outcome p st = Some Good_frame then frame_count st + 1 else frame_count st) \<and>
         (sint (frame_count st) < 2 ^ 31 - 1 \<longrightarrow> frame_count st \<le>s frame_count st') \<and>
         (\<forall>st2. carried st2 = carried st \<longrightarrow>
            map_option carried (rx_cycle p name st2) = Some (carried st')) \<and>
         ((\<forall>path w. \<not> fst (fopen_wb p path w)) \<longrightarrow> files (sys st') = files (sys st))"
proof -
  note fc = frame_count_pass[OF assms]
  have "frame_count st \<le>s frame_count st'" if "sint (frame_count st) < 2 ^ 31 - 1"
    unfolding fc using sint_succ[OF that] by (simp add: word_sle_eq)
  moreover have "map_option carried (rx_cycle p name st2) = Some (carried st')"
    if "carried st2 = carried st" for st2
    using rx_cycle_carried[OF that, of p name] assms by simp
  ultimately show ?thesis
    using fc files_pass_no_disk[OF assms] by blast
qed

theorem frame_count_counts_captured_frames_witness:
  "\<exists>st'. rx_cycle bench ''t'' power_on = Some st' \<and> frame_count st' = 1 \<and>
     frame_count power_on \<le>s frame_count st' \<and>
     map_option carried (rx_cycle bench ''t'' (power_on\<lparr>frame_len := 9, filename := ''old''\<rparr>)) =
       Some (carried st')"
proof -
  from rx_cycle_good[OF bench_outcomes(1)[of power_on], of "''t''"]
  obtain st' where a: "rx_cycle bench ''t'' power_on = Some st'" by blast
  have b: "frame_count power_on = 0"
    by (simp add: power_on_def)
  have c: "carried (power_on\<lparr>frame_len := 9, filename := ''old''\<rparr>) = carried power_on"
    by (simp add: carried_def)
  from frame_count_counts_captured_frames[OF a] a b c show ?thesis
    by (simp add: bench_outcomes word_sle_eq)
qed

subsection \<open>Failed chunk reads\<close>










subsection \<open>The loop\<close>

lemma files_pass:
  assumes "rx_cycle p name st = Some st'"
  shows "length (files (sys st')) \<le> length (files (sys st)) +
           (if cycle_outcome p st = Some Good_frame then 1 else 0) \<and>
         ((\<forall>path w. fst (fopen_wb p path w)) \<longrightarrow>
            length (files (sys st')) = length (files (sys st)) +
              (if cycle_outcome p st = Some Good_frame then 1 else 0))"
proof -
  from cycle_outcome_Some[OF assms] obtain out where out: "cycle_outcome p st = Some out"
    by blast
  show ?thesis
  proof (cases out)
    case Good_frame
    from rx_cycle_good[OF out[unfolded Good_frame], of name] assms
    have "files (sys st') = files (sys st) \<or>
        (\<exists>content. files (sys st') = files (sys st) @ [(filename st', content)])"
      and "(\<forall>path w. fst (fopen_wb p path w)) \<longrightarrow> files (sys st') \<noteq> files (sys st)"
      by auto
    then show ?thesis
      by (auto simp: out Good_frame)
  next
    case Oversized_frame
    with rx_cycle_oversized[OF out[unfolded Oversized_frame], of name] assms out
    show ?thesis by auto
  next
    case Rx_error
    with rx_cycle_rx_error[OF out[unfolded Rx_error], of name] assms out
    show ?thesis by auto
  qed
qed

lemma sint_max32: "sint (x :: int32) \<le> 2 ^ 31 - 1"
  using sint_lt[of x] by simp

lemma main_loop_Some:
  assumes "main_loop p name max_count st = Some st'"
  shows "0 <s max_count \<and> max_count \<le>s frame_count st' \<and>
     stdout (sys st') \<noteq> [] \<and> last (stdout (sys st')) = ''test complete'' @ crlf \<and>
     (frame_count st \<le>s max_count \<longrightarrow>
        frame_count st' = max_count \<and>
        length (files (sys st')) \<le>
          length (files (sys st)) + nat (sint max_count - sint (frame_count st)) \<and>
        ((\<forall>path w. fst (fopen_wb p path w)) \<longrightarrow>
           length (files (sys st')) =
             length (files (sys st)) + nat (sint max_count - sint (frame_count st))) \<and>
        ((\<forall>path w. \<not> fst (fopen_wb p path w)) \<longrightarrow> files (sys st') = files (sys st)))"
  using assms
proof (induction rule: main_loop.raw_induct[rotated 1, consumes 1, case_names step])
  case (step loop p name max_count st st')
  show ?case
  proof (cases "0 <s max_count \<and> max_count \<le>s frame_count st")
    case True
    with step(2) have st': "st' = st\<lparr>sys := printf (''test complete'' @ crlf) (sys st)\<rparr>"
      by simp
    have "frame_count st = max_count" if "frame_count st \<le>s max_count"
    proof (rule signed_word_eqI)
      show "sint (frame_count st) = sint max_count"
        using that True by (simp add: word_sle_eq)
    qed
    with True show ?thesis
      by (auto simp: st' printf_def word_sle_eq)
  next
    case False
    with step(2) obtain st1 where r: "rx_cycle p name st = Some st1"
      and l: "loop p name max_count st1 = Some st'"
      by (auto simp: bind_eq_Some_conv)
    note ih = step(1)[OF l]
    from ih have pos: "0 <s max_count" by simp
    with False have lt: "sint (frame_count st) < sint max_count"
      by (simp add: word_sle_eq)
    with sint_max32[of max_count] have ns: "sint (frame_count st) < 2 ^ 31 - 1"
      by simp
    note fc = frame_count_pass[OF r]
    note fl = files_pass[OF r]
    note nd = files_pass_no_disk[OF r]
    show ?thesis
    proof (cases "cycle_outcome p st = Some Good_frame")
      case True
      with fc sint_succ[OF ns] have s1: "sint (frame_count st1) = sint (frame_count st) + 1"
        by simp
      with lt have le1: "frame_count st1 \<le>s max_count"
        by (simp add: word_sle_eq)
      from ih le1 fl nd lt show ?thesis
        by (auto simp: True s1)
    next
      case False
      with fc have s1: "frame_count st1 = frame_count st"
        by simp
      with lt have le1: "frame_count st1 \<le>s max_count"
        by (simp add: word_sle_eq)
      from ih le1 fl nd lt show ?thesis
        by (auto simp: False s1)
    qed
  qed
qed


lemma main_loop_never:
  assumes "max_count \<le>s 0"
  shows "main_loop p name max_count st = None"
proof (cases "main_loop p name max_count st")
  case None
  then show ?thesis .
next
  case (Some st')
  from main_loop_Some[OF this] assms show ?thesis
    by (simp add: word_sle_eq word_sless_alt)
qed

lemma main_loop_prefix_left:
  "main_loop_prefix n p name max_count st = Some (True, st') \<Longrightarrow>
   main_loop p name max_count st = Some st'"
proof (induction n arbitrary: st)
  case 0
  then show ?case by simp
next
  case (Suc n)
  show ?case
  proof (cases "0 <s max_count \<and> max_count \<le>s frame_count st")
    case True
    with Suc.prems show ?thesis
      by (subst main_loop.simps) auto
  next
    case False
    with Suc.prems obtain st1 where r: "rx_cycle p name st = Some st1"
      and c: "main_loop_prefix n p name max_count st1 = Some (True, st')"
      by (auto simp: bind_eq_Some_conv)
    from Suc.IH[OF c] False r show ?thesis
      by (subst main_loop.simps) auto
  qed
qed

lemma main_loop_prefix_unbounded:
  "max_count \<le>s 0 \<Longrightarrow>
   main_loop_prefix n p name max_count st = map_option (Pair False) (rx_cycles n p name st)"
proof (induction n arbitrary: st)
  case 0
  then show ?case by simp
next
  case (Suc n)
  from Suc.prems have "\<not> (0 <s max_count \<and> max_count \<le>s frame_count st)"
    by (simp add: word_sle_eq word_sless_alt)
  then show ?case
    by (cases "rx_cycle p name st") (auto simp: Suc.IH[OF Suc.prems])
qed




lemma main_max_frame_count_default: "main_max_frame_count p [prog, name] = - 1"
  by (simp add: main_max_frame_count_def)




text \<open>
  C10. With \<open>max_frame_count \<le> 0\<close> the check at the head of the loop is false for every
  value of the counter, so the loop never leaves; any number of first passes is the same
  as with \<open>-1\<close>, the value of a session without a maximum: the passes alone. Only a
  loop with \<open>0 < max_frame_count\<close> can leave. An argument that \<^verbatim>\<open>sscanf\<close> reads as such
  a value is what the loop gets.
\<close>

theorem nonpositive_max_never_terminates:
  assumes "max_count \<le>s 0"
  shows "\<not> (0 <s max_count \<and> max_count \<le>s count) \<and>
         main_loop_prefix n p name max_count st = main_loop_prefix n p name (- 1) st \<and>
         main_loop_prefix n p name max_count st = map_option (Pair False) (rx_cycles n p name st) \<and>
         main_loop p name max_count st = None \<and>
         main_loop p name max_count st = main_loop p name (- 1) st \<and>
         (\<forall>m st'. main_loop p name m st = Some st' \<longrightarrow> 0 <s m) \<and>
         (sscanf_ld p arg = Some max_count \<longrightarrow>
            main_max_frame_count p [prog, name, arg] = max_count \<and>
            main_loop p name (main_max_frame_count p [prog, name, arg]) st =
              main_loop p name (main_max_frame_count p [prog, name]) st)"
proof -
  have m1: "(- 1 :: int32) \<le>s 0"
    by (simp add: word_sle_eq)
  have a: "\<not> (0 <s max_count \<and> max_count \<le>s count)"
    using assms by (simp add: word_sle_eq word_sless_alt)
  have b: "main_loop_prefix n p name max_count st = map_option (Pair False) (rx_cycles n p name st)"
    using assms by (rule main_loop_prefix_unbounded)
  have b': "main_loop_prefix n p name (- 1) st = map_option (Pair False) (rx_cycles n p name st)"
    using m1 by (rule main_loop_prefix_unbounded)
  have c: "main_loop p name max_count st = None"
    using assms by (rule main_loop_never)
  have c': "main_loop p name (- 1) st = None"
    using m1 by (rule main_loop_never)
  have d: "\<forall>m st'. main_loop p name m st = Some st' \<longrightarrow> 0 <s m"
    using main_loop_Some by blast
  have e: "main_max_frame_count p [prog, name, arg] = max_count"
    if "sscanf_ld p arg = Some max_count"
    using that by (simp add: main_max_frame_count_def)
  show ?thesis
    using a b b' c c' d e by (simp add: main_max_frame_count_default)
qed

theorem nonpositive_max_never_terminates_witness:
  "(0 :: int32) \<le>s 0 \<and> sscanf_ld bench ''0'' = Some 0 \<and>
   main_max_frame_count bench [''radar_rx'', ''t'', ''0''] = 0 \<and>
   main_loop bench ''t'' 0 power_on = None \<and>
   main_loop_prefix 5 bench ''t'' 0 power_on = main_loop_prefix 5 bench ''t'' (- 1) power_on \<and>
   main_loop bench ''t'' (main_max_frame_count bench [''radar_rx'', ''t'', ''0'']) power_on =
     main_loop bench ''t'' (main_max_frame_count bench [''radar_rx'', ''t'']) power_on"
proof -
  have z: "(0 :: int32) \<le>s 0"
    by (simp add: word_sle_eq)
  have s: "sscanf_ld bench ''0'' = Some 0"
    by (simp add: bench_def)
  have m: "main_max_frame_count bench [''radar_rx'', ''t'', ''0''] = 0"
    by (simp add: main_max_frame_count_def s)
  from nonpositive_max_never_terminates[OF z, of 0 5 bench "''t''" power_on "''0''" "''radar_rx''"] z s
  show ?thesis by (auto simp: m main_max_frame_count_default)
qed

end
